theory Spec2Isabelle
  imports Main "HOL-Library.Word"
begin

unbundle bit_operations_syntax

section \<open>Address parsing (dataProxy.ts, parseAddress)\<close>

text \<open>
  A JavaScript string is modelled as a \<open>string\<close> whose characters are the code units
  (below 256). A JavaScript number is modelled by \<open>number\<close>: \<open>NaN\<close>, an exactly
  represented integer of magnitude below \<open>2 ^ 53\<close> (the sign of zero is not kept), or
  \<open>Rounded\<close>, which stands for every result of magnitude \<open>2 ^ 53\<close> and more (a double
  that is no longer the exact value, or an infinity); nothing is said about which.
\<close>

datatype number = NaN | Integer int | Rounded

record AddressData =
  host :: string
  port :: number

record AddressOverride =
  primary :: string
  fallback :: "string option"

definition char_range :: "char \<Rightarrow> char \<Rightarrow> char \<Rightarrow> bool" where
  "char_range lo hi c \<longleftrightarrow> (of_char lo :: nat) \<le> of_char c \<and> (of_char c :: nat) \<le> of_char hi"

definition digit :: "char \<Rightarrow> bool" where
  "digit c \<longleftrightarrow> char_range (CHR ''0'') (CHR ''9'') c"

text \<open>
  The alternation of \<open>regexPort\<close>, matched against everything after the colon up to the
  end of the input:
  \<^verbatim>\<open>[0-9]{1,4}|[1-5][0-9]{4}|6[0-4][0-9]{3}|65[0-4][0-9]{2}|655[0-2][0-9]|6553[0-5]?\<close>
\<close>

definition port_alternatives :: "string \<Rightarrow> bool" where
  "port_alternatives ds \<longleftrightarrow>
     (1 \<le> length ds \<and> length ds \<le> 4 \<and> list_all digit ds)
   \<or> (case ds of [a, b, c, d, e] \<Rightarrow>
         char_range (CHR ''1'') (CHR ''5'') a \<and> digit b \<and> digit c \<and> digit d \<and> digit e
       | _ \<Rightarrow> False)
   \<or> (case ds of [a, b, c, d, e] \<Rightarrow>
         a = CHR ''6'' \<and> char_range (CHR ''0'') (CHR ''4'') b \<and> digit c \<and> digit d \<and> digit e
       | _ \<Rightarrow> False)
   \<or> (case ds of [a, b, c, d, e] \<Rightarrow>
         a = CHR ''6'' \<and> b = CHR ''5'' \<and> char_range (CHR ''0'') (CHR ''4'') c \<and> digit d \<and> digit e
       | _ \<Rightarrow> False)
   \<or> (case ds of [a, b, c, d, e] \<Rightarrow>
         a = CHR ''6'' \<and> b = CHR ''5'' \<and> c = CHR ''5'' \<and> char_range (CHR ''0'') (CHR ''2'') d \<and> digit e
       | _ \<Rightarrow> False)
   \<or> (case ds of [a, b, c, d] \<Rightarrow> a = CHR ''6'' \<and> b = CHR ''5'' \<and> c = CHR ''5'' \<and> d = CHR ''3''
       | [a, b, c, d, e] \<Rightarrow>
         a = CHR ''6'' \<and> b = CHR ''5'' \<and> c = CHR ''5'' \<and> d = CHR ''3'' \<and> char_range (CHR ''0'') (CHR ''5'') e
       | _ \<Rightarrow> False)"

text \<open>
  \<open>regexPort.test(address)\<close>: the pattern \<^verbatim>\<open>(:(...))$\<close> is searched at every position of
  the input; it matches where a colon is followed by one of the alternatives and then the
  end of the input.
\<close>

fun regexPort_test :: "string \<Rightarrow> bool" where
  "regexPort_test [] = False"
| "regexPort_test (c # cs) = ((c = CHR '':'' \<and> port_alternatives cs) \<or> regexPort_test cs)"

text \<open>\<open>String.prototype.split\<close> with a one-character separator: at least one field.\<close>

fun split :: "char \<Rightarrow> string \<Rightarrow> string list" where
  "split sep [] = [[]]"
| "split sep (c # cs) =
     (if c = sep then [] # split sep cs
      else (case split sep cs of f # fs \<Rightarrow> (c # f) # fs | [] \<Rightarrow> [[c]]))"

text \<open>
  \<open>parseInt(string)\<close> with no radix, after ECMAScript: leading white space is skipped, a
  sign is read, a \<open>0x\<close> or \<open>0X\<close> prefix selects radix 16 (radix 10 otherwise), and the
  longest prefix of digits of that radix is the value; with no digit the result is \<open>NaN\<close>.
\<close>

definition StrWhiteSpaceChar :: "char \<Rightarrow> bool" where
  "StrWhiteSpaceChar c \<longleftrightarrow> (of_char c :: nat) \<in> {9, 10, 11, 12, 13, 32, 160}"

definition digit_value :: "char \<Rightarrow> nat" where
  "digit_value c =
     (if digit c then of_char c - 48
      else if char_range (CHR ''a'') (CHR ''z'') c then of_char c - 87
      else if char_range (CHR ''A'') (CHR ''Z'') c then of_char c - 55
      else 36)"

definition radix_digit :: "nat \<Rightarrow> char \<Rightarrow> bool" where
  "radix_digit R c \<longleftrightarrow> digit_value c < R"

definition mathInt :: "nat \<Rightarrow> string \<Rightarrow> int" where
  "mathInt R Z = foldl (\<lambda>acc c. acc * int R + int (digit_value c)) 0 Z"

definition to_number :: "int \<Rightarrow> number" where
  "to_number v = (if \<bar>v\<bar> < 2 ^ 53 then Integer v else Rounded)"

definition parseInt :: "string \<Rightarrow> number" where
  "parseInt inputString =
     (let S = dropWhile StrWhiteSpaceChar inputString;
          (sign, S) = (case S of
                         c # rest \<Rightarrow> if c = CHR ''-'' then (- 1 :: int, rest)
                                    else if c = CHR ''+'' then (1, rest) else (1, S)
                       | [] \<Rightarrow> (1, S));
          (R, S) = (case S of
                      c # x # rest \<Rightarrow> if c = CHR ''0'' \<and> (x = CHR ''x'' \<or> x = CHR ''X'')
                                       then (16 :: nat, rest) else (10, S)
                    | _ \<Rightarrow> (10, S));
          Z = takeWhile (radix_digit R) S
      in if Z = [] then NaN else to_number (sign * mathInt R Z))"

text \<open>
  \<open>parseAddress\<close>. \<open>split[0]\<close> and \<open>split[1]\<close> are the first two fields; a missing
  \<open>split[1]\<close> would be \<open>undefined\<close>, which \<open>parseInt\<close> turns into \<open>NaN\<close> (the case does
  not arise when the pattern matched, and \<open>split\<close> never returns the empty list).
\<close>

definition parseAddress :: "string \<Rightarrow> AddressData" where
  "parseAddress address =
     (if regexPort_test address then
        (case split (CHR '':'') address of
           h # p # _ \<Rightarrow> \<lparr>host = h, port = parseInt p\<rparr>
         | [h] \<Rightarrow> \<lparr>host = h, port = NaN\<rparr>
         | [] \<Rightarrow> \<lparr>host = [], port = NaN\<rparr>)
      else \<lparr>host = address, port = Integer 1359\<rparr>)"

text \<open>What the specification asks of a port: an integer from 0 to 65535.\<close>

definition port_in_range :: "number \<Rightarrow> bool" where
  "port_in_range n = (case n of Integer i \<Rightarrow> 0 \<le> i \<and> i \<le> 65535 | _ \<Rightarrow> False)"

text \<open>The number a string of decimal digits denotes, by position.\<close>

fun decimal :: "string \<Rightarrow> int" where
  "decimal [] = 0"
| "decimal (c # cs) = (int (of_char c) - 48) * 10 ^ length cs + decimal cs"

text \<open>
  The port grammar in the specification's words: one to five decimal digits, constrained
  to the 16-bit range.
\<close>

definition valid_port_suffix :: "string \<Rightarrow> bool" where
  "valid_port_suffix p \<longleftrightarrow>
     list_all digit p \<and> 1 \<le> length p \<and> length p \<le> 5 \<and> decimal p \<le> 65535"

section \<open>Framing on write (DataProxyTCP.writeSync)\<close>

type_synonym byte = "8 word"
type_synonym bytes = "byte list"

datatype error = RangeError

datatype ConnectionErrorCode = Connection

text \<open>
  What the transport reports to its owner through the inherited \<open>notifyOpen\<close>,
  \<open>notifyClose\<close> and \<open>notifyMessage\<close>, in order.
\<close>

datatype notification = Open | Close ConnectionErrorCode | Message bytes bool

text \<open>
  The state of a \<open>DataProxyTCP\<close> object. The fields named \<open>socket_\<close> are the state of
  \<open>this.socket\<close>: the \<open>connect(port, host)\<close> calls and the chunks passed to \<open>write\<close>, in
  order, and whether \<open>end\<close> was called. Every call of \<open>start\<close> adds one listener for
  each event; a close listener is the closure's \<open>addressSecondary\<close>.
\<close>

record DataProxyTCP =
  override :: "AddressOverride option"
  isStopping :: bool
  socket_connects :: "(number \<times> string) list"
  socket_writes :: "bytes list"
  socket_ended :: bool
  connectListeners :: nat
  closeListeners :: "AddressData option list"
  readableListeners :: nat
  notifications :: "notification list"

definition new_DataProxyTCP :: "AddressOverride option \<Rightarrow> DataProxyTCP" where
  "new_DataProxyTCP ov =
     \<lparr>override = ov, isStopping = False, socket_connects = [], socket_writes = [],
      socket_ended = False, connectListeners = 0, closeListeners = [],
      readableListeners = 0, notifications = []\<rparr>"

text \<open>
  The part of the ByteBuffer library that \<open>writeSync\<close> uses, as the library's build for
  Node has it, where the backing store is a \<open>Buffer\<close>. The library coerces every capacity
  to a signed 32-bit integer (\<open>capacity | 0\<close>), so a capacity of \<open>2 ^ 32\<close> and more
  wraps around, and raises \<open>RangeError\<close> when the result is negative.
\<close>

definition int32 :: "int \<Rightarrow> int" where
  "int32 v = sint (word_of_int v :: 32 word)"

record ByteBuffer =
  buffer :: bytes
  offset :: nat

definition allocate :: "nat \<Rightarrow> error + ByteBuffer" where
  "allocate capacity =
     (let c = int32 (int capacity)
      in if c < 0 then Inl RangeError
         else Inr \<lparr>buffer = replicate (nat c) 0, offset = 0\<rparr>)"

text \<open>\<open>resize\<close> grows the buffer to the coerced capacity when it is shorter, and never cuts it.\<close>

definition resize :: "nat \<Rightarrow> ByteBuffer \<Rightarrow> error + ByteBuffer" where
  "resize capacity bb =
     (let c = int32 (int capacity)
      in if c < 0 then Inl RangeError
         else if length (buffer bb) < nat c
           then Inr (bb\<lparr>buffer := buffer bb @ replicate (nat c - length (buffer bb)) 0\<rparr>)
           else Inr bb)"

text \<open>
  What every write does first: it refuses an offset past the end of the buffer, and when
  its \<open>n\<close> bytes would pass the end it resizes to twice the capacity, or to the end of
  the write when that is more
  (\<^verbatim>\<open>if (offset > capacity) this.resize((capacity *= 2) > offset ? capacity : offset)\<close>).
\<close>

definition reserve :: "nat \<Rightarrow> ByteBuffer \<Rightarrow> error + ByteBuffer" where
  "reserve n bb =
     (if length (buffer bb) < offset bb then Inl RangeError
      else
        (let off = offset bb + n; capacity = length (buffer bb)
         in if capacity < off then resize (if off < capacity * 2 then capacity * 2 else off) bb
            else Inr bb))"

text \<open>
  Storing bytes from index \<open>off\<close> on: an assignment past the end of a \<open>Buffer\<close> has no
  effect, and \<open>Buffer.copy\<close> stops at the end of its target, so the bytes that do not fit
  are left out.
\<close>

definition store :: "nat \<Rightarrow> bytes \<Rightarrow> bytes \<Rightarrow> bytes" where
  "store off bs buf = take off buf @ take (length buf - off) bs @ drop (off + length bs) buf"

definition and_then :: "error + 'a \<Rightarrow> ('a \<Rightarrow> error + 'b) \<Rightarrow> error + 'b" where
  "and_then r f = (case r of Inl e \<Rightarrow> Inl e | Inr x \<Rightarrow> f x)"

text \<open>
  \<open>writeInt\<close> (\<open>writeInt32\<close>, big-endian by default): the value is reduced to 32 bits
  (\<open>value |= 0\<close>) and stored as \<open>(value >>> 24) & 0xFF\<close>, \<open>(value >>> 16) & 0xFF\<close>,
  \<open>(value >>> 8) & 0xFF\<close>, \<open>value & 0xFF\<close>.
\<close>

definition int32_bytes :: "32 word \<Rightarrow> bytes" where
  "int32_bytes value =
     [ucast (drop_bit 24 value AND 0xFF), ucast (drop_bit 16 value AND 0xFF),
      ucast (drop_bit 8 value AND 0xFF), ucast (value AND 0xFF)]"

definition writeInt :: "int \<Rightarrow> ByteBuffer \<Rightarrow> error + ByteBuffer" where
  "writeInt value bb =
     and_then (reserve 4 bb)
       (\<lambda>bb. Inr (bb\<lparr>buffer := store (offset bb) (int32_bytes (word_of_int value)) (buffer bb),
                     offset := offset bb + 4\<rparr>))"

definition writeByte :: "int \<Rightarrow> ByteBuffer \<Rightarrow> error + ByteBuffer" where
  "writeByte value bb =
     and_then (reserve 1 bb)
       (\<lambda>bb. Inr (bb\<lparr>buffer := store (offset bb) [word_of_int value] (buffer bb),
                     offset := offset bb + 1\<rparr>))"

text \<open>\<open>append\<close> returns at once when there is nothing to append.\<close>

definition append_bb :: "bytes \<Rightarrow> ByteBuffer \<Rightarrow> error + ByteBuffer" where
  "append_bb source bb =
     (if length (buffer bb) < offset bb then Inl RangeError
      else if source = [] then Inr bb
      else and_then (reserve (length source) bb)
        (\<lambda>bb. Inr (bb\<lparr>buffer := store (offset bb) source (buffer bb),
                      offset := offset bb + length source\<rparr>)))"

text \<open>
  \<open>writeSync\<close>: the frame is built in a buffer allocated for \<open>4 + 1 + data.byteLength\<close>
  bytes, and the whole buffer goes to the socket in one \<open>write\<close> call.
\<close>

definition byteBuffer :: "bytes \<Rightarrow> bool \<Rightarrow> error + ByteBuffer" where
  "byteBuffer data isEncrypted =
     and_then
       (and_then
         (and_then (allocate (4 + 1 + length data)) (writeInt (int (length data))))
         (writeByte (if isEncrypted then 1 else 0)))
       (append_bb data)"

definition writeSync ::
  "bytes \<Rightarrow> bool \<Rightarrow> 'a DataProxyTCP_scheme \<Rightarrow> error + 'a DataProxyTCP_scheme" where
  "writeSync data isEncrypted this =
     (case byteBuffer data isEncrypted of
        Inl e \<Rightarrow> Inl e
      | Inr bb \<Rightarrow> Inr (this\<lparr>socket_writes := socket_writes this @ [buffer bb]\<rparr>))"

text \<open>A big-endian unsigned 32-bit integer, read from four bytes.\<close>

definition be_uint32 :: "bytes \<Rightarrow> nat" where
  "be_uint32 bs =
     (case bs of
        [b0, b1, b2, b3] \<Rightarrow> unat b0 * 2 ^ 24 + unat b1 * 2 ^ 16 + unat b2 * 2 ^ 8 + unat b3
      | _ \<Rightarrow> 0)"

section \<open>Framing on read (the socket's readable handler)\<close>

text \<open>
  \<open>socket.read(n)\<close> on an open stream: \<open>null\<close> when \<open>n\<close> is not positive (\<open>read(0)\<close>
  never returns data) or when fewer than \<open>n\<close> bytes are buffered; otherwise the first
  \<open>n\<close> buffered bytes, which leave the buffer.
\<close>

definition socket_read :: "int \<Rightarrow> bytes \<Rightarrow> (bytes \<times> bytes) option" where
  "socket_read n buf =
     (if n \<le> 0 \<or> int (length buf) < n then None
      else Some (take (nat n) buf, drop (nat n) buf))"

text \<open>\<open>Buffer.readInt32BE(0)\<close> on a buffer of at least four bytes.\<close>

definition readInt32BE :: "bytes \<Rightarrow> int" where
  "readInt32BE data =
     sint (push_bit 24 (ucast (data ! 0)) OR push_bit 16 (ucast (data ! 1))
           OR push_bit 8 (ucast (data ! 2)) OR (ucast (data ! 3) :: 32 word))"

record messageData =
  size_md :: int
  isEncrypted :: bool

text \<open>
  The state one readable handler works on: the bytes buffered in the socket, the
  closure's \<open>messageData\<close>, whether \<open>this.previousDecrypt\<close> is set, and the messages
  taken off the stream so far, each with its flag, in order. A message goes on to
  \<open>decryptData\<close> when its flag is set and then to \<open>notifyMessage\<close>.
\<close>

record reader =
  readBuffer :: bytes
  messageData :: "messageData option"
  previousDecrypt :: bool
  received :: "(bytes \<times> bool) list"

text \<open>
  How a run of the handler stops: at a \<open>break\<close>, or suspended at the
  \<open>await\<close> of the first \<open>decryptData\<close>, with \<open>messageData\<close> still set.
\<close>

datatype handler_exit = Break | Await

function readable :: "reader \<Rightarrow> reader \<times> handler_exit" where
  "readable r =
     (case messageData r of
        None \<Rightarrow>
          (case socket_read (4 + 1) (readBuffer r) of
             None \<Rightarrow> (r, Break)
           | Some (data, rest) \<Rightarrow>
               readable (r\<lparr>readBuffer := rest,
                           messageData := Some \<lparr>size_md = readInt32BE data,
                                                isEncrypted = (data ! 4 \<noteq> 0)\<rparr>\<rparr>))
      | Some md \<Rightarrow>
          (case socket_read (size_md md) (readBuffer r) of
             None \<Rightarrow> (r, Break)
           | Some (data, rest) \<Rightarrow>
               if previousDecrypt r then
                 readable (r\<lparr>readBuffer := rest,
                             received := received r @ [(data, isEncrypted md)],
                             messageData := None\<rparr>)
               else if isEncrypted md then
                 (r\<lparr>readBuffer := rest, previousDecrypt := True,
                    received := received r @ [(data, True)]\<rparr>, Await)
               else
                 readable (r\<lparr>readBuffer := rest,
                             received := received r @ [(data, False)],
                             messageData := None\<rparr>)))"
  by pat_completeness auto
termination
  by (relation "measure (\<lambda>r. length (readBuffer r))")
     (auto simp: socket_read_def split: if_splits)

declare readable.simps [simp del]

text \<open>
  When the awaited \<open>decryptData\<close> has completed the handler goes on: it clears
  \<open>messageData\<close> and takes the loop up again.
\<close>

definition resume :: "reader \<Rightarrow> reader \<times> handler_exit" where
  "resume r = readable (r\<lparr>messageData := None\<rparr>)"

text \<open>Bytes arriving from the network are appended to the socket's buffer.\<close>

definition arrive :: "bytes \<Rightarrow> reader \<Rightarrow> reader" where
  "arrive bs r = r\<lparr>readBuffer := readBuffer r @ bs\<rparr>"

definition new_reader :: reader where
  "new_reader = \<lparr>readBuffer = [], messageData = None, previousDecrypt = False, received = []\<rparr>"

section \<open>Connection life cycle (DataProxyTCP.start, stop and the socket's events)\<close>

datatype SecureStorageKey = ServerAddress | ServerAddressFallback | ServerPassword

text \<open>What \<open>getSecureLS\<close> answers for each key; \<open>None\<close> is \<open>undefined\<close>.\<close>

type_synonym SecureLS = "SecureStorageKey \<Rightarrow> string option"

definition notifyOpen :: "'a DataProxyTCP_scheme \<Rightarrow> 'a DataProxyTCP_scheme" where
  "notifyOpen this = this\<lparr>notifications := notifications this @ [Open]\<rparr>"

definition notifyClose ::
  "ConnectionErrorCode \<Rightarrow> 'a DataProxyTCP_scheme \<Rightarrow> 'a DataProxyTCP_scheme" where
  "notifyClose reason this = this\<lparr>notifications := notifications this @ [Close reason]\<rparr>"

definition socket_connect ::
  "AddressData \<Rightarrow> 'a DataProxyTCP_scheme \<Rightarrow> 'a DataProxyTCP_scheme" where
  "socket_connect a this = this\<lparr>socket_connects := socket_connects this @ [(port a, host a)]\<rparr>"

text \<open>
  \<open>start\<close>, with the two storage look-ups answered by \<open>ls\<close>. The first statement
  assigns \<open>true\<close> to \<open>isStopping\<close>. An empty fallback string of the override is falsy
  and gives no secondary address; a stored fallback is parsed whenever it is defined.
\<close>

definition start :: "SecureLS \<Rightarrow> 'a DataProxyTCP_scheme \<Rightarrow> 'a DataProxyTCP_scheme" where
  "start ls this0 =
     (let this = this0\<lparr>isStopping := True\<rparr>;
          addresses =
            (case override this of
               Some ov \<Rightarrow>
                 Some (parseAddress (primary ov),
                       (case fallback ov of
                          Some f \<Rightarrow> if f \<noteq> [] then Some (parseAddress f) else None
                        | None \<Rightarrow> None))
             | None \<Rightarrow>
                 (case ls ServerAddress of
                    None \<Rightarrow> None
                  | Some addressPrimaryStr \<Rightarrow>
                      Some (parseAddress addressPrimaryStr,
                            (case ls ServerAddressFallback of
                               Some addressSecondaryStr \<Rightarrow> Some (parseAddress addressSecondaryStr)
                             | None \<Rightarrow> None))))
      in case addresses of
           None \<Rightarrow> notifyClose Connection this
         | Some (addressPrimary, addressSecondary) \<Rightarrow>
             (socket_connect addressPrimary this)
               \<lparr>connectListeners := connectListeners this + 1,
                closeListeners := closeListeners this @ [addressSecondary],
                readableListeners := readableListeners this + 1\<rparr>)"

text \<open>The close listener of one \<open>start\<close> call, whose closure holds \<open>addressSecondary\<close>.\<close>

definition close_listener ::
  "AddressData option \<Rightarrow> 'a DataProxyTCP_scheme \<Rightarrow> 'a DataProxyTCP_scheme" where
  "close_listener addressSecondary this =
     (case addressSecondary of
        Some a \<Rightarrow> if \<not> isStopping this then socket_connect a this
                  else notifyClose Connection this
      | None \<Rightarrow> notifyClose Connection this)"

text \<open>The socket's events: each runs the listeners registered for it, in order.\<close>

definition socket_closed :: "'a DataProxyTCP_scheme \<Rightarrow> 'a DataProxyTCP_scheme" where
  "socket_closed this = fold close_listener (closeListeners this) this"

definition socket_connected :: "'a DataProxyTCP_scheme \<Rightarrow> 'a DataProxyTCP_scheme" where
  "socket_connected this = (notifyOpen ^^ connectListeners this) this"

definition stop :: "'a DataProxyTCP_scheme \<Rightarrow> 'a DataProxyTCP_scheme" where
  "stop this = this\<lparr>isStopping := True, socket_ended := True\<rparr>"

text \<open>
  What can happen to a transport, for statements about every course of events. A
  \<open>writeSync\<close> that raises leaves the state as it was.
\<close>

datatype operation = Start SecureLS | Stop | Connected | Closed | Write bytes bool

fun operate :: "operation \<Rightarrow> 'a DataProxyTCP_scheme \<Rightarrow> 'a DataProxyTCP_scheme" where
  "operate (Start ls) this = start ls this"
| "operate Stop this = stop this"
| "operate Connected this = socket_connected this"
| "operate Closed this = socket_closed this"
| "operate (Write data e) this = (case writeSync data e this of Inr this' \<Rightarrow> this' | Inl _ \<Rightarrow> this)"

definition run :: "operation list \<Rightarrow> 'a DataProxyTCP_scheme \<Rightarrow> 'a DataProxyTCP_scheme" where
  "run ops this = fold operate ops this"

section \<open>The manual configuration dialog (ConnectionConfigDialog.tsx)\<close>

datatype ConnectionState = connecting | connected | disconnected "ConnectionErrorCode option"

text \<open>
  The calls the dialog makes on its collaborators (\<open>ConnectionManager\<close>,
  \<open>setCryptoPassword\<close>, \<open>setSecureLS\<close>, \<open>props.onApplyConfig\<close>), recorded in order.
\<close>

datatype call =
    setDataProxy AddressOverride
  | setDisableAutomaticReconnections bool
  | setCryptoPassword string
  | setSecureLS SecureStorageKey "string option"
  | connect
  | onApplyConfig

text \<open>
  The component's state, the calls made so far, and the number of \<open>Promise.all\<close>
  results of \<open>submitForm\<close> that have not settled yet.
\<close>

record ConnectionConfigDialog =
  connectionState :: ConnectionState
  address :: string
  fallbackAddress :: string
  password :: string
  calls :: "call list"
  pending :: nat

definition new_ConnectionConfigDialog :: ConnectionConfigDialog where
  "new_ConnectionConfigDialog =
     \<lparr>connectionState = disconnected None, address = [], fallbackAddress = [],
      password = [], calls = [], pending = 0\<rparr>"

text \<open>
  \<open>inputValid\<close>; \<open>matches s\<close> stands for \<open>s.match(regexInternetAddress)\<close> being a match,
  the pattern itself is not modelled.
\<close>

definition inputValid :: "(string \<Rightarrow> bool) \<Rightarrow> ConnectionConfigDialog \<Rightarrow> bool" where
  "inputValid matches d \<longleftrightarrow>
     matches (address d)
     \<and> (length (fallbackAddress d) = 0 \<or> matches (fallbackAddress d))
     \<and> length (password d) > 0"

definition submitForm ::
  "(string \<Rightarrow> bool) \<Rightarrow> ConnectionConfigDialog \<Rightarrow> ConnectionConfigDialog" where
  "submitForm matches d =
     (if \<not> inputValid matches d then d
      else
        (let addressClean = address d;
             addressFallbackClean =
               (if length (fallbackAddress d) > 0 then Some (fallbackAddress d) else None)
         in d\<lparr>calls := calls d @
                  [setDataProxy \<lparr>primary = addressClean, fallback = addressFallbackClean\<rparr>,
                   setDisableAutomaticReconnections True,
                   setCryptoPassword (password d),
                   setSecureLS ServerAddress (Some addressClean),
                   setSecureLS ServerAddressFallback addressFallbackClean,
                   setSecureLS ServerPassword (Some (password d))],
               pending := pending d + 1\<rparr>))"

text \<open>
  A pending \<open>Promise.all\<close> settles: fulfilled, its \<open>then\<close> callback calls
  \<open>ConnectionManager.connect()\<close>; rejected, nothing is called.
\<close>

definition promise_settled :: "bool \<Rightarrow> ConnectionConfigDialog \<Rightarrow> ConnectionConfigDialog" where
  "promise_settled fulfilled d =
     (if pending d = 0 then d
      else if fulfilled then d\<lparr>calls := calls d @ [connect], pending := pending d - 1\<rparr>
      else d\<lparr>pending := pending d - 1\<rparr>)"

definition finish :: "ConnectionConfigDialog \<Rightarrow> ConnectionConfigDialog" where
  "finish d = d\<lparr>calls := calls d @ [setDisableAutomaticReconnections False, onApplyConfig]\<rparr>"

text \<open>
  Everything that can happen to the dialog: the form is submitted, a promise settles,
  the user finishes, a field is edited, the connection listener is called.
\<close>

datatype dialog_event =
    SubmitForm
  | PromiseSettled bool
  | Finish
  | SetAddress string
  | SetFallbackAddress string
  | SetPassword string
  | OnConnecting
  | OnOpen
  | OnClose ConnectionErrorCode

fun dialog_step ::
  "(string \<Rightarrow> bool) \<Rightarrow> dialog_event \<Rightarrow> ConnectionConfigDialog \<Rightarrow> ConnectionConfigDialog" where
  "dialog_step matches SubmitForm d = submitForm matches d"
| "dialog_step matches (PromiseSettled b) d = promise_settled b d"
| "dialog_step matches Finish d = finish d"
| "dialog_step matches (SetAddress v) d = d\<lparr>address := v\<rparr>"
| "dialog_step matches (SetFallbackAddress v) d = d\<lparr>fallbackAddress := v\<rparr>"
| "dialog_step matches (SetPassword v) d = d\<lparr>password := v\<rparr>"
| "dialog_step matches OnConnecting d = d\<lparr>connectionState := connecting\<rparr>"
| "dialog_step matches OnOpen d = d\<lparr>connectionState := connected\<rparr>"
| "dialog_step matches (OnClose reason) d = d\<lparr>connectionState := disconnected (Some reason)\<rparr>"

definition dialog_run ::
  "(string \<Rightarrow> bool) \<Rightarrow> dialog_event list \<Rightarrow> ConnectionConfigDialog \<Rightarrow> ConnectionConfigDialog" where
  "dialog_run matches evs d = fold (dialog_step matches) evs d"

text \<open>
  Modelled from the spec: \<open>ConnectionManager\<close> (shared/connection/connectionManager) is
  not among the sources. Its flag is what \<open>setDisableAutomaticReconnections\<close> was last
  called with, and on a close of the transport it schedules a new \<open>connect()\<close> attempt
  if automatic reconnection is not suppressed.
\<close>

definition disableAutomaticReconnections :: "bool \<Rightarrow> call list \<Rightarrow> bool" where
  "disableAutomaticReconnections initial cs =
     fold (\<lambda>c flag. case c of setDisableAutomaticReconnections b \<Rightarrow> b | _ \<Rightarrow> flag) cs initial"

definition reconnects_on_close :: "bool \<Rightarrow> call list \<Rightarrow> bool" where
  "reconnects_on_close initial cs \<longleftrightarrow> \<not> disableAutomaticReconnections initial cs"

section \<open>The outbound pipeline (DataProxyTCP.send)\<close>

text \<open>
  \<open>send\<close> is an async function that chains its calls through the promise in
  \<open>this.previousEncrypt\<close>. The promises it creates are kept in \<open>promises\<close>, a promise
  being the index of its entry: pending, with the continuations registered on it in the
  order of registration, or settled. \<open>microtasks\<close> is the engine's queue of
  continuations that are ready to run, each with the outcome of the promise it waited
  for, and \<open>encrypting\<close> lists the \<open>encryptData\<close> calls that have not completed, each with
  its promise and its argument. The continuations are the three places where the code of
  \<open>send\<close> goes on after a promise has settled:
  \<^item> \<open>SendAwait n\<close>: call \<open>n\<close> of \<open>send\<close> after
    \<^verbatim>\<open>await (this.previousEncrypt = encryptData(data))\<close>, about to call \<open>writeSync\<close>;
  \<^item> \<open>ChainedSend n data encrypt chained\<close>: the async callback that call \<open>n\<close> passed to
    \<open>then\<close>, with the promise \<open>chained\<close> that \<open>then\<close> returned;
  \<^item> \<open>ChainedAwait n chained\<close>: that callback after its \<^verbatim>\<open>await encryptData(data)\<close>.

  \<open>sends\<close> counts the calls of \<open>send\<close>, and the number \<open>n\<close> that a continuation and an
  encryption carry is the number of the call they belong to. The code has no such
  numbers: they only serve to say which frame belongs to which call.
\<close>

type_synonym promise_id = nat

datatype continuation =
    SendAwait nat
  | ChainedSend nat bytes bool promise_id
  | ChainedAwait nat promise_id

datatype outcome = Fulfilled bytes | Rejected

datatype promise = Pending "continuation list" | Settled outcome

record Outbound = DataProxyTCP +
  previousEncrypt :: "promise_id option"
  promises :: "promise list"
  encrypting :: "(promise_id \<times> nat \<times> bytes) list"
  microtasks :: "(continuation \<times> outcome) list"
  sends :: nat

definition new_Outbound :: "AddressOverride option \<Rightarrow> Outbound" where
  "new_Outbound ov =
     \<lparr>override = ov, isStopping = False, socket_connects = [], socket_writes = [],
      socket_ended = False, connectListeners = 0, closeListeners = [],
      readableListeners = 0, notifications = [],
      previousEncrypt = None, promises = [], encrypting = [], microtasks = [],
      sends = 0\<rparr>"

definition new_promise :: "Outbound \<Rightarrow> promise_id \<times> Outbound" where
  "new_promise this = (length (promises this), this\<lparr>promises := promises this @ [Pending []]\<rparr>)"

text \<open>
  \<open>encryptData(data)\<close>, called for call \<open>n\<close> of \<open>send\<close>, returns a pending promise at
  once; the encryption completes later, whenever it does (the event \<open>Encrypted\<close> below).
\<close>

definition encryptData :: "nat \<Rightarrow> bytes \<Rightarrow> Outbound \<Rightarrow> promise_id \<times> Outbound" where
  "encryptData n data this =
     (case new_promise this of
        (p, this') \<Rightarrow> (p, this'\<lparr>encrypting := encrypting this' @ [(p, n, data)]\<rparr>))"

text \<open>
  Registering a continuation on a promise, as \<open>then\<close> and \<open>await\<close> do: it is appended to
  the continuations of a pending promise, and queued as a microtask at once when the
  promise is already settled.
\<close>

definition on_settled :: "promise_id \<Rightarrow> continuation \<Rightarrow> Outbound \<Rightarrow> Outbound" where
  "on_settled p k this =
     (if p < length (promises this) then
        (case promises this ! p of
           Pending ks \<Rightarrow> this\<lparr>promises := (promises this)[p := Pending (ks @ [k])]\<rparr>
         | Settled out \<Rightarrow> this\<lparr>microtasks := microtasks this @ [(k, out)]\<rparr>)
      else this)"

text \<open>Settling a pending promise queues its continuations, in their order.\<close>

definition settle :: "promise_id \<Rightarrow> outcome \<Rightarrow> Outbound \<Rightarrow> Outbound" where
  "settle p out this =
     (if p < length (promises this) then
        (case promises this ! p of
           Pending ks \<Rightarrow> this\<lparr>promises := (promises this)[p := Settled out],
                              microtasks := microtasks this @ map (\<lambda>k. (k, out)) ks\<rparr>
         | Settled _ \<Rightarrow> this)
      else this)"

text \<open>
  A call of \<open>writeSync\<close> made by \<open>send\<close>; the result says whether it returned (\<open>True\<close>)
  or raised.
\<close>

definition write_frame :: "bytes \<Rightarrow> bool \<Rightarrow> Outbound \<Rightarrow> Outbound \<times> bool" where
  "write_frame data e this =
     (case writeSync data e this of
        Inr this' \<Rightarrow> (this', True)
      | Inl _ \<Rightarrow> (this, False))"

text \<open>
  \<open>send\<close>, up to its first suspension. With \<open>previousEncrypt\<close> set, the callback is
  registered on it with \<open>then\<close>, and the promise \<open>then\<close> returns becomes the new
  \<open>previousEncrypt\<close>. Otherwise an encrypted send starts the encryption, stores its
  promise in \<open>previousEncrypt\<close> and awaits it, and an unencrypted one writes at once.
\<close>

definition send :: "bytes \<Rightarrow> bool \<Rightarrow> Outbound \<Rightarrow> Outbound" where
  "send data encrypt this0 =
     (let n = sends this0; this = this0\<lparr>sends := n + 1\<rparr> in
      case previousEncrypt this of
        Some previous \<Rightarrow>
          (case new_promise this of
             (chained, this') \<Rightarrow>
               (on_settled previous (ChainedSend n data encrypt chained) this')
                 \<lparr>previousEncrypt := Some chained\<rparr>)
      | None \<Rightarrow>
          if encrypt then
            (case encryptData n data this of
               (p, this') \<Rightarrow> on_settled p (SendAwait n) (this'\<lparr>previousEncrypt := Some p\<rparr>))
          else fst (write_frame data False this))"

text \<open>
  The promise that \<open>then\<close> returned settles when its async callback is done: fulfilled
  when the callback returned, rejected when it raised. (The engine takes further
  microtask turns to pass the callback's own promise on to it; they are not modelled,
  the promise settles at the end of the callback's run.)
\<close>

definition finish_chained :: "promise_id \<Rightarrow> Outbound \<times> bool \<Rightarrow> Outbound" where
  "finish_chained chained r =
     (case r of (this, ok) \<Rightarrow> settle chained (if ok then Fulfilled [] else Rejected) this)"

text \<open>
  Running a queued continuation. A rejected \<open>await\<close> raises, which ends the function
  without a write; \<open>then\<close> was given no rejection handler, so a rejection of the previous
  promise skips the callback and rejects the promise \<open>then\<close> returned.
\<close>

fun run_job :: "continuation \<times> outcome \<Rightarrow> Outbound \<Rightarrow> Outbound" where
  "run_job (SendAwait n, Fulfilled ciphertext) this = fst (write_frame ciphertext True this)"
| "run_job (SendAwait n, Rejected) this = this"
| "run_job (ChainedSend n data encrypt chained, Fulfilled _) this =
     (if encrypt then
        (case encryptData n data this of (p, this') \<Rightarrow> on_settled p (ChainedAwait n chained) this')
      else finish_chained chained (write_frame data False this))"
| "run_job (ChainedSend n data encrypt chained, Rejected) this = settle chained Rejected this"
| "run_job (ChainedAwait n chained, Fulfilled ciphertext) this =
     finish_chained chained (write_frame ciphertext True this)"
| "run_job (ChainedAwait n chained, Rejected) this = settle chained Rejected this"

text \<open>
  What \<open>encryptData\<close> answers is not in the hands of \<open>send\<close>: \<open>enc n data\<close> is the
  ciphertext that the call made for call \<open>n\<close> of \<open>send\<close> delivers for \<open>data\<close>, or \<open>None\<close>
  when its promise is rejected. When it delivers it is not in its hands either.
\<close>

type_synonym encryption = "nat \<Rightarrow> bytes \<Rightarrow> bytes option"

text \<open>
  What happens, one thing at a time, in any order: the owner calls \<open>send\<close>; an
  encryption in flight completes; the engine runs the first queued microtask. An event
  that cannot happen in a state (no such encryption in flight, no microtask queued)
  leaves it as it is.
\<close>

datatype event = Send bytes bool | Encrypted promise_id | Microtask

fun step :: "encryption \<Rightarrow> event \<Rightarrow> Outbound \<Rightarrow> Outbound" where
  "step enc (Send data encrypt) this = send data encrypt this"
| "step enc (Encrypted p) this =
     (case map_of (encrypting this) p of
        None \<Rightarrow> this
      | Some (n, data) \<Rightarrow>
          settle p (case enc n data of Some ciphertext \<Rightarrow> Fulfilled ciphertext | None \<Rightarrow> Rejected)
            (this\<lparr>encrypting := filter (\<lambda>x. fst x \<noteq> p) (encrypting this)\<rparr>))"
| "step enc Microtask this =
     (case microtasks this of
        [] \<Rightarrow> this
      | job # jobs \<Rightarrow> run_job job (this\<lparr>microtasks := jobs\<rparr>))"

definition run_events :: "encryption \<Rightarrow> event list \<Rightarrow> Outbound \<Rightarrow> Outbound" where
  "run_events enc evs this = fold (step enc) evs this"

text \<open>The arguments of the \<open>send\<close> calls in a course of events, in the order of the calls.\<close>

fun send_calls :: "event list \<Rightarrow> (bytes \<times> bool) list" where
  "send_calls [] = []"
| "send_calls (Send data encrypt # evs) = (data, encrypt) # send_calls evs"
| "send_calls (Encrypted p # evs) = send_calls evs"
| "send_calls (Microtask # evs) = send_calls evs"

subsection \<open>What the socket is to receive\<close>

text \<open>
  The payload of the frame for call \<open>n\<close> of \<open>send\<close>, made with the arguments \<open>c\<close>: the
  data itself, or the ciphertext that the encryption delivers; none when the encryption
  fails.
\<close>

definition payload_of :: "encryption \<Rightarrow> nat \<Rightarrow> bytes \<times> bool \<Rightarrow> bytes option" where
  "payload_of enc n c = (if snd c then enc n (fst c) else Some (fst c))"

text \<open>
  A call is sendable when it has a payload and the frame for it fits a buffer that
  \<open>ByteBuffer.allocate\<close> grants.
\<close>

definition sendable :: "encryption \<Rightarrow> nat \<Rightarrow> bytes \<times> bool \<Rightarrow> bool" where
  "sendable enc n c \<longleftrightarrow>
     (case payload_of enc n c of Some pl \<Rightarrow> 4 + 1 + length pl < 2 ^ 31 | None \<Rightarrow> False)"

text \<open>The chunk that \<open>writeSync\<close> builds for the payload of call \<open>n\<close>.\<close>

definition chunk_of :: "encryption \<Rightarrow> nat \<Rightarrow> bytes \<times> bool \<Rightarrow> bytes" where
  "chunk_of enc n c =
     (case payload_of enc n c of
        None \<Rightarrow> []
      | Some pl \<Rightarrow> (case byteBuffer pl (snd c) of Inr bb \<Rightarrow> buffer bb | Inl _ \<Rightarrow> []))"

text \<open>
  The frame in the specification's words: the length of the payload as a big-endian
  32-bit integer, the flag byte, the payload. \<open>expected\<close> lists the frames of the calls
  \<open>cs\<close>, in the order of the calls.
\<close>

definition frame_of :: "bytes \<Rightarrow> bool \<Rightarrow> bytes" where
  "frame_of pl e = int32_bytes (word_of_nat (length pl)) @ (if e then 1 else 0) # pl"

definition wire :: "encryption \<Rightarrow> nat \<Rightarrow> bytes \<times> bool \<Rightarrow> bytes" where
  "wire enc n c = (case payload_of enc n c of Some pl \<Rightarrow> frame_of pl (snd c) | None \<Rightarrow> [])"

definition expected :: "encryption \<Rightarrow> (bytes \<times> bool) list \<Rightarrow> bytes list" where
  "expected enc cs = map (\<lambda>n. wire enc n (cs ! n)) [0..<length cs]"

subsection \<open>The invariant of the pipeline\<close>

text \<open>The call of \<open>send\<close> a continuation belongs to.\<close>

fun tag :: "continuation \<Rightarrow> nat" where
  "tag (SendAwait n) = n"
| "tag (ChainedSend n data encrypt chained) = n"
| "tag (ChainedAwait n chained) = n"

text \<open>A continuation agrees with the calls \<open>cs\<close> when it holds the arguments of its call.\<close>

fun agrees :: "(bytes \<times> bool) list \<Rightarrow> continuation \<Rightarrow> bool" where
  "agrees cs (SendAwait n) \<longleftrightarrow> n < length cs \<and> snd (cs ! n)"
| "agrees cs (ChainedSend n data e d) \<longleftrightarrow> n < length cs \<and> cs ! n = (data, e)"
| "agrees cs (ChainedAwait n d) \<longleftrightarrow> n < length cs \<and> snd (cs ! n)"

text \<open>The outcome of the encryption made for call \<open>n\<close>.\<close>

definition answer :: "encryption \<Rightarrow> (bytes \<times> bool) list \<Rightarrow> nat \<Rightarrow> outcome" where
  "answer enc cs n =
     (case enc n (fst (cs ! n)) of Some ciphertext \<Rightarrow> Fulfilled ciphertext | None \<Rightarrow> Rejected)"

text \<open>
  \<open>waiting H prev p pre ks\<close>: in the heap \<open>H\<close> the promise \<open>p\<close> is pending, and the
  chained sends \<open>ks\<close> wait behind it one after the other, each registered on the promise
  of the one before, up to \<open>prev\<close>, the promise in \<open>previousEncrypt\<close>, on which nothing is
  registered yet; \<open>pre\<close> is what else is registered on \<open>p\<close> itself, before the first of
  \<open>ks\<close>.
\<close>

fun waiting ::
  "promise list \<Rightarrow> promise_id option \<Rightarrow> promise_id \<Rightarrow> continuation list \<Rightarrow> continuation list \<Rightarrow> bool" where
  "waiting H prev p pre [] \<longleftrightarrow> p < length H \<and> H ! p = Pending pre \<and> prev = Some p"
| "waiting H prev p pre (ChainedSend n data e d # ks) \<longleftrightarrow>
     p < length H \<and> H ! p = Pending (pre @ [ChainedSend n data e d]) \<and> p < d
     \<and> waiting H prev d [] ks"
| "waiting H prev p pre (SendAwait n # ks) \<longleftrightarrow> False"
| "waiting H prev p pre (ChainedAwait n d # ks) \<longleftrightarrow> False"

text \<open>
  \<open>queued H prev q out ks\<close>: the first of the chained sends \<open>ks\<close> is the queued microtask
  \<open>q\<close> and the others wait behind it; with no chained send, nothing is queued and
  \<open>previousEncrypt\<close> is settled.
\<close>

definition queued ::
  "promise list \<Rightarrow> promise_id option \<Rightarrow> (continuation \<times> outcome) list \<Rightarrow> outcome
   \<Rightarrow> continuation list \<Rightarrow> bool" where
  "queued H prev q out ks \<longleftrightarrow>
     (case ks of
        [] \<Rightarrow> q = [] \<and> (\<exists>p. prev = Some p \<and> p < length H \<and> H ! p = Settled out)
      | k # ks' \<Rightarrow>
          q = [(k, out)] \<and> (\<exists>n data e d. k = ChainedSend n data e d \<and> waiting H prev d [] ks'))"

text \<open>
  A rejection that runs down the chain is the fault of a call that was not sendable and
  came before all the calls still to be served.
\<close>

definition blamed :: "encryption \<Rightarrow> (bytes \<times> bool) list \<Rightarrow> continuation list \<Rightarrow> bool" where
  "blamed enc cs ks \<longleftrightarrow>
     (\<exists>m<length cs. \<not> sendable enc m (cs ! m) \<and> (\<forall>k \<in> set ks. m < tag k))"

text \<open>
  \<open>pipeline enc cs this ks ph\<close>: the continuations that have not run yet are \<open>ks\<close>, in the
  order in which they will run. The state is in one of six shapes: nothing was ever
  encrypted; the first encryption is in flight; it has completed and the send that
  awaited it is queued; a chained send is queued (or none is left); the encryption of a
  chained send is in flight; it has completed and the send is queued again. The phase
  \<open>ph\<close> tells how far the first continuation is from its write: 1 with its encryption in
  flight, 0 with its ciphertext at hand, 2 otherwise.
\<close>

definition pipeline ::
  "encryption \<Rightarrow> (bytes \<times> bool) list \<Rightarrow> Outbound \<Rightarrow> continuation list \<Rightarrow> nat \<Rightarrow> bool" where
  "pipeline enc cs this ks ph \<longleftrightarrow>
     (ks = [] \<and> ph = 2 \<and> previousEncrypt this = None \<and> microtasks this = []
         \<and> encrypting this = [])
   \<or> (\<exists>p n ks'. ks = SendAwait n # ks' \<and> ph = 1 \<and> microtasks this = []
         \<and> encrypting this = [(p, n, fst (cs ! n))]
         \<and> waiting (promises this) (previousEncrypt this) p [SendAwait n] ks')
   \<or> (\<exists>n q ks'. ks = SendAwait n # ks' \<and> ph = 0
         \<and> microtasks this = (SendAwait n, answer enc cs n) # q \<and> encrypting this = []
         \<and> queued (promises this) (previousEncrypt this) q (answer enc cs n) ks')
   \<or> (\<exists>out. ph = 2 \<and> encrypting this = []
         \<and> queued (promises this) (previousEncrypt this) (microtasks this) out ks
         \<and> (out = Rejected \<longrightarrow> blamed enc cs ks))
   \<or> (\<exists>p n d ks'. ks = ChainedAwait n d # ks' \<and> ph = 1 \<and> microtasks this = []
         \<and> encrypting this = [(p, n, fst (cs ! n))]
         \<and> p < length (promises this) \<and> promises this ! p = Pending [ChainedAwait n d]
         \<and> waiting (promises this) (previousEncrypt this) d [] ks')
   \<or> (\<exists>n d ks'. ks = ChainedAwait n d # ks' \<and> ph = 0
         \<and> microtasks this = [(ChainedAwait n d, answer enc cs n)] \<and> encrypting this = []
         \<and> waiting (promises this) (previousEncrypt this) d [] ks')"

text \<open>
  \<open>agenda enc cs ws ts\<close>: the calls \<open>ws\<close> whose chunks are written, followed by the calls
  \<open>ts\<close> still to be served, are in increasing order and all made already, and a call that
  is in neither list was not sendable or came after one that was not.
\<close>

definition agenda :: "encryption \<Rightarrow> (bytes \<times> bool) list \<Rightarrow> nat list \<Rightarrow> nat list \<Rightarrow> bool" where
  "agenda enc cs ws ts \<longleftrightarrow>
     sorted_wrt (<) (ws @ ts)
     \<and> (\<forall>n \<in> set (ws @ ts). n < length cs)
     \<and> (\<forall>n<length cs. n \<in> set (ws @ ts) \<or> (\<exists>m\<le>n. \<not> sendable enc m (cs ! m)))"

text \<open>
  The invariant, after the calls \<open>cs\<close>: the chunks written are those of the calls \<open>ws\<close>,
  and the continuations \<open>ks\<close> are still to run.
\<close>

definition invariant_at ::
  "encryption \<Rightarrow> (bytes \<times> bool) list \<Rightarrow> Outbound \<Rightarrow> nat list \<Rightarrow> continuation list \<Rightarrow> nat
   \<Rightarrow> bool" where
  "invariant_at enc cs this ws ks ph \<longleftrightarrow>
     sends this = length cs \<and> pipeline enc cs this ks ph \<and> list_all (agrees cs) ks
     \<and> agenda enc cs ws (map tag ks)
     \<and> socket_writes this = map (\<lambda>n. chunk_of enc n (cs ! n)) ws"

definition invariant :: "encryption \<Rightarrow> (bytes \<times> bool) list \<Rightarrow> Outbound \<Rightarrow> bool" where
  "invariant enc cs this \<longleftrightarrow> (\<exists>ws ks ph. invariant_at enc cs this ws ks ph)"

section \<open>Properties of address parsing\<close>

lemma digit_bounds: "digit c \<longleftrightarrow> 48 \<le> (of_char c :: nat) \<and> (of_char c :: nat) \<le> 57"
  by (simp add: digit_def char_range_def)

lemma decimal_bounds: "list_all digit p \<Longrightarrow> 0 \<le> decimal p \<and> decimal p < 10 ^ length p"
proof (induction p)
  case Nil
  then show ?case by simp
next
  case (Cons c cs)
  then have d: "0 \<le> int (of_char c) - 48" "int (of_char c) - 48 \<le> 9"
    by (auto simp: digit_bounds)
  from Cons have ih: "0 \<le> decimal cs" "decimal cs < 10 ^ length cs" by auto
  have "(int (of_char c) - 48) * 10 ^ length cs \<le> 9 * 10 ^ length cs"
    using d by (intro mult_right_mono) auto
  moreover have "0 \<le> (int (of_char c) - 48) * 10 ^ length cs"
    using d by simp
  ultimately have "0 \<le> (int (of_char c) - 48) * 10 ^ length cs + decimal cs"
    "(int (of_char c) - 48) * 10 ^ length cs + decimal cs < 10 * 10 ^ length cs"
    using ih by linarith+
  then show ?case by simp
qed

lemma port_alternatives_digits:
  "port_alternatives p \<Longrightarrow> list_all digit p \<and> p \<noteq> [] \<and> length p \<le> 5"
  unfolding port_alternatives_def
  by (auto simp: digit_bounds char_range_def split: list.splits)

lemma port_alternatives_bound: "port_alternatives p \<Longrightarrow> decimal p \<le> 65535"
proof (cases "length p \<le> 4")
  case True
  assume "port_alternatives p"
  then have "decimal p < 10 ^ length p"
    by (simp add: decimal_bounds port_alternatives_digits)
  also have "(10::int) ^ length p \<le> 10 ^ 4" using True by (intro power_increasing) auto
  finally show ?thesis by simp
next
  case False
  assume "port_alternatives p"
  with False show ?thesis
    unfolding port_alternatives_def
    by (auto simp: digit_bounds char_range_def split: list.splits)
qed

lemma char_eq_of_char: "c = d \<longleftrightarrow> (of_char c :: nat) = of_char d"
  by auto

lemma length_five: "length p = 5 \<Longrightarrow> \<exists>a b c d e. p = [a, b, c, d, e]"
  by (auto simp: length_Suc_conv eval_nat_numeral)

text \<open>
  The pattern accepts exactly the digit strings of one to four digits and those of five
  digits without a leading zero that denote at most 65535.
\<close>

lemma port_alternatives_iff:
  "port_alternatives p \<longleftrightarrow>
     list_all digit p \<and> p \<noteq> [] \<and>
     (length p \<le> 4 \<or> length p = 5 \<and> hd p \<noteq> CHR ''0'' \<and> decimal p \<le> 65535)"
proof
  assume a: "port_alternatives p"
  have "length p \<le> 4 \<or> length p = 5 \<and> hd p \<noteq> CHR ''0''"
    using a unfolding port_alternatives_def
    by (auto simp: digit_bounds char_range_def split: list.splits)
  then show "list_all digit p \<and> p \<noteq> [] \<and>
     (length p \<le> 4 \<or> length p = 5 \<and> hd p \<noteq> CHR ''0'' \<and> decimal p \<le> 65535)"
    using port_alternatives_bound [OF a] port_alternatives_digits [OF a] by blast
next
  assume r: "list_all digit p \<and> p \<noteq> [] \<and>
     (length p \<le> 4 \<or> length p = 5 \<and> hd p \<noteq> CHR ''0'' \<and> decimal p \<le> 65535)"
  show "port_alternatives p"
  proof (cases "length p \<le> 4")
    case True
    with r show ?thesis
      unfolding port_alternatives_def by (cases p) auto
  next
    case False
    with r have l: "length p = 5" and h: "hd p \<noteq> CHR ''0''" and v: "decimal p \<le> 65535"
      and d: "list_all digit p" by auto
    from length_five [OF l] obtain a b c d e where p: "p = [a, b, c, d, e]" by blast
    show ?thesis
      using h v d unfolding p port_alternatives_def
      by (simp add: digit_bounds char_range_def char_eq_of_char) linarith
  qed
qed

lemma port_alternatives_valid: "port_alternatives p \<Longrightarrow> valid_port_suffix p"
  using port_alternatives_digits [of p] port_alternatives_bound [of p]
  by (cases p) (auto simp: valid_port_suffix_def)

lemma split_nonempty: "split sep s \<noteq> []"
  by (induction s) (auto split: list.splits)

lemma split_no_sep: "sep \<notin> set h \<Longrightarrow> split sep h = [h]"
  by (induction h) auto

lemma split_at_first: "sep \<notin> set h \<Longrightarrow> split sep (h @ sep # r) = h # split sep r"
  by (induction h) auto

lemma digit_value_digit:
  "digit c \<Longrightarrow> int (digit_value c) = int (of_char c) - 48 \<and> digit_value c < 10"
  by (auto simp: digit_value_def digit_bounds)

lemma foldl_decimal:
  "list_all digit p \<Longrightarrow>
   foldl (\<lambda>acc c. acc * 10 + int (digit_value c)) a p = a * 10 ^ length p + decimal p"
  by (induction p arbitrary: a) (simp_all add: digit_value_digit algebra_simps)

lemma mathInt_decimal: "list_all digit p \<Longrightarrow> mathInt 10 p = decimal p"
  by (simp add: mathInt_def foldl_decimal)

lemma takeWhile_digits: "list_all digit p \<Longrightarrow> takeWhile (radix_digit 10) p = p"
  by (induction p) (simp_all add: radix_digit_def digit_value_digit)

lemma parseInt_digits:
  assumes d: "list_all digit p" and ne: "p \<noteq> []" and len: "length p \<le> 15"
  shows "parseInt p = Integer (decimal p)"
proof -
  from ne obtain c cs where p: "p = c # cs" by (cases p) auto
  from d p have c: "digit c" by simp
  then have ws: "\<not> StrWhiteSpaceChar c" and sg: "c \<noteq> CHR ''-''" "c \<noteq> CHR ''+''"
    by (auto simp: StrWhiteSpaceChar_def digit_bounds)
  have nox: "\<And>x rest. cs = x # rest \<Longrightarrow> x \<noteq> CHR ''x'' \<and> x \<noteq> CHR ''X''"
    using d p by (auto simp: digit_bounds)
  have dcs: "list_all digit cs" using d p by simp
  have "decimal p < 10 ^ length p" "0 \<le> decimal p" using decimal_bounds [OF d] by auto
  moreover have "(10::int) ^ length p \<le> 10 ^ 15" using len by (intro power_increasing) auto
  ultimately have small: "\<bar>decimal p\<bar> < 2 ^ 53" by simp
  have "parseInt (c # cs) = to_number (mathInt 10 (c # cs))"
    using ws sg nox c dcs
    by (cases cs)
      (simp_all add: parseInt_def Let_def takeWhile_digits radix_digit_def digit_value_digit)
  then show ?thesis
    using small mathInt_decimal [OF d] p by (simp add: to_number_def)
qed

lemma port_alternatives_no_colon: "port_alternatives p \<Longrightarrow> CHR '':'' \<notin> set p"
proof -
  assume "port_alternatives p"
  then have "list_all digit p" by (simp add: port_alternatives_digits)
  then show ?thesis by (auto simp: list_all_iff digit_bounds)
qed

text \<open>The pattern matches exactly the strings that end in a colon and an accepted port.\<close>

lemma regexPort_test_iff:
  "regexPort_test s \<longleftrightarrow> (\<exists>h p. s = h @ CHR '':'' # p \<and> port_alternatives p)"
proof (induction s)
  case Nil
  then show ?case by simp
next
  case (Cons c cs)
  show ?case
  proof
    assume "regexPort_test (c # cs)"
    then consider "c = CHR '':''" "port_alternatives cs" | "regexPort_test cs" by auto
    then show "\<exists>h p. c # cs = h @ CHR '':'' # p \<and> port_alternatives p"
    proof cases
      case 1
      then have "c # cs = [] @ CHR '':'' # cs" by simp
      with 1 show ?thesis by blast
    next
      case 2
      with Cons obtain h p where "cs = h @ CHR '':'' # p" "port_alternatives p" by blast
      then have "c # cs = (c # h) @ CHR '':'' # p" by simp
      with \<open>port_alternatives p\<close> show ?thesis by blast
    qed
  next
    assume "\<exists>h p. c # cs = h @ CHR '':'' # p \<and> port_alternatives p"
    then obtain h p where e: "c # cs = h @ CHR '':'' # p" and pa: "port_alternatives p"
      by blast
    show "regexPort_test (c # cs)"
    proof (cases h)
      case Nil
      with e pa show ?thesis by simp
    next
      case (Cons x h')
      with e have "cs = h' @ CHR '':'' # p" by simp
      with pa Cons.IH show ?thesis by auto
    qed
  qed
qed

lemma parseAddress_single_colon:
  assumes h: "CHR '':'' \<notin> set h" and p: "port_alternatives p"
  shows "parseAddress (h @ CHR '':'' # p) = \<lparr>host = h, port = Integer (decimal p)\<rparr>"
proof -
  have t: "regexPort_test (h @ CHR '':'' # p)" using p regexPort_test_iff by blast
  have s: "split (CHR '':'') (h @ CHR '':'' # p) = [h, p]"
    using h port_alternatives_no_colon [OF p] by (simp add: split_at_first split_no_sep)
  have "parseInt p = Integer (decimal p)"
    using port_alternatives_digits [OF p] by (intro parseInt_digits) auto
  with t s show ?thesis by (simp add: parseAddress_def)
qed

lemma port_alternatives_valid_iff:
  "port_alternatives p \<longleftrightarrow> valid_port_suffix p \<and> (length p = 5 \<longrightarrow> hd p \<noteq> CHR ''0'')"
proof
  assume a: "port_alternatives p"
  then have "length p = 5 \<longrightarrow> hd p \<noteq> CHR ''0''"
    unfolding port_alternatives_iff by auto
  with port_alternatives_valid [OF a] show
    "valid_port_suffix p \<and> (length p = 5 \<longrightarrow> hd p \<noteq> CHR ''0'')" by simp
next
  assume "valid_port_suffix p \<and> (length p = 5 \<longrightarrow> hd p \<noteq> CHR ''0'')"
  then have "list_all digit p" "p \<noteq> []"
    "length p \<le> 4 \<or> length p = 5 \<and> hd p \<noteq> CHR ''0'' \<and> decimal p \<le> 65535"
    unfolding valid_port_suffix_def by auto
  then show "port_alternatives p" unfolding port_alternatives_iff by simp
qed

text \<open>
  What \<open>parseAddress\<close> does on the addresses with no colon in the host part. Call a port
  suffix recognizable when it is a valid port suffix (one to five digits that denote at
  most 65535) with no leading zero when it has five digits. For every address \<open>h:p\<close>
  whose host part \<open>h\<close> holds no colon and whose port \<open>p\<close> is recognizable,
  \<open>parseAddress\<close> returns exactly \<open>h\<close> and the port that \<open>p\<close> denotes; for every string
  that does not end in a colon and a recognizable port suffix it returns the entire
  string as the host and the port 1359.
\<close>

lemma parseAddress_recognizable:
  "(CHR '':'' \<notin> set h \<and> valid_port_suffix p \<and> (length p = 5 \<longrightarrow> hd p \<noteq> CHR ''0'')
      \<longrightarrow> parseAddress (h @ CHR '':'' # p) = \<lparr>host = h, port = Integer (decimal p)\<rparr>)
   \<and> ((\<forall>h p. s = h @ CHR '':'' # p \<longrightarrow>
          \<not> (valid_port_suffix p \<and> (length p = 5 \<longrightarrow> hd p \<noteq> CHR ''0'')))
      \<longrightarrow> parseAddress s = \<lparr>host = s, port = Integer 1359\<rparr>)"
proof (intro conjI impI)
  assume a: "CHR '':'' \<notin> set h \<and> valid_port_suffix p \<and> (length p = 5 \<longrightarrow> hd p \<noteq> CHR ''0'')"
  then have "port_alternatives p" by (simp add: port_alternatives_valid_iff)
  with a show "parseAddress (h @ CHR '':'' # p) = \<lparr>host = h, port = Integer (decimal p)\<rparr>"
    by (simp add: parseAddress_single_colon)
next
  assume "\<forall>h p. s = h @ CHR '':'' # p \<longrightarrow>
            \<not> (valid_port_suffix p \<and> (length p = 5 \<longrightarrow> hd p \<noteq> CHR ''0''))"
  then have "\<not> regexPort_test s"
    unfolding regexPort_test_iff port_alternatives_valid_iff by blast
  then show "parseAddress s = \<lparr>host = s, port = Integer 1359\<rparr>"
    by (simp add: parseAddress_def)
qed

lemma parseAddress_leading_zero_port:
  "valid_port_suffix ''01234'' \<and> decimal ''01234'' = 1234
   \<and> parseAddress ''a:01234'' = \<lparr>host = ''a:01234'', port = Integer 1359\<rparr>"
  by (simp add: parseAddress_def port_alternatives_def valid_port_suffix_def digit_def
      char_range_def)

text \<open>
  With at most one colon in the input, the port that \<open>parseAddress\<close> returns is an
  integer from 0 to 65535.
\<close>

lemma parseAddress_one_colon_port:
  assumes "length (filter (\<lambda>c. c = CHR '':'') s) \<le> 1"
  shows "port_in_range (port (parseAddress s))"
proof (cases "regexPort_test s")
  case False
  then show ?thesis by (simp add: parseAddress_def port_in_range_def)
next
  case True
  then obtain h p where s: "s = h @ CHR '':'' # p" and p: "port_alternatives p"
    unfolding regexPort_test_iff by blast
  from assms s have "filter (\<lambda>c. c = CHR '':'') h = []" by simp
  then have "CHR '':'' \<notin> set h" by (auto simp: filter_empty_conv)
  then have "parseAddress s = \<lparr>host = h, port = Integer (decimal p)\<rparr>"
    using p s by (simp add: parseAddress_single_colon)
  moreover have "0 \<le> decimal p" "decimal p \<le> 65535"
    using p by (simp_all add: decimal_bounds port_alternatives_digits port_alternatives_bound)
  ultimately show ?thesis by (simp add: port_in_range_def)
qed

text \<open>
  C2. The claim: an address ending in an explicit valid \<open>:port\<close> suffix is parsed into
  exactly its host part and that port. The code does not do so: \<open>parseAddress\<close> tests the
  pattern at the end of the string, where \<open>[::1]:1359\<close> has the valid suffix \<open>:1359\<close>, but
  then returns the first and the second field of \<open>split(":")\<close>, which here are \<open>[\<close> and
  the empty string. The bracketed IPv6 address with the explicit port 1359 comes back as
  host \<open>[\<close> with the port \<open>NaN\<close>, not as host \<open>[::1]\<close> with the port 1359.
\<close>

theorem parseAddress_bracketed_host:
  "regexPort_test ''[::1]:1359'' \<and> valid_port_suffix ''1359''
   \<and> split (CHR '':'') ''[::1]:1359'' = [''['', [], ''1]'', ''1359'']
   \<and> parseAddress ''[::1]:1359'' = \<lparr>host = ''['', port = NaN\<rparr>
   \<and> parseAddress ''[::1]:1359'' \<noteq> \<lparr>host = ''[::1]'', port = Integer 1359\<rparr>"
  by (simp add: parseAddress_def port_alternatives_def valid_port_suffix_def digit_def
      char_range_def parseInt_def StrWhiteSpaceChar_def radix_digit_def digit_value_def)

text \<open>
  C3. The claim: the port of every address that \<open>parseAddress\<close> returns is an integer
  from 0 to 65535. The code does not keep to it, by the same slip: the pattern validates
  the last field (\<open>80\<close> in \<open>a:99999:80\<close>), the port is \<open>parseInt\<close> of the second one, which
  the pattern never looked at. \<open>a:99999:80\<close> gets the port 99999, and \<open>[::1]:1359\<close> gets
  \<open>NaN\<close>, which is no integer at all.
\<close>

theorem parseAddress_middle_field:
  "regexPort_test ''a:99999:80''
   \<and> split (CHR '':'') ''a:99999:80'' = [''a'', ''99999'', ''80'']
   \<and> parseAddress ''a:99999:80'' = \<lparr>host = ''a'', port = Integer 99999\<rparr>
   \<and> \<not> port_in_range (port (parseAddress ''a:99999:80''))
   \<and> \<not> port_in_range (port (parseAddress ''[::1]:1359''))"
  by (simp add: parseAddress_def port_alternatives_def digit_def char_range_def
      parseInt_def StrWhiteSpaceChar_def radix_digit_def digit_value_def mathInt_def
      to_number_def port_in_range_def)

section \<open>Properties of the framing\<close>

lemma ff_mask: "(0xFF :: 32 word) = mask 8"
  by (simp add: mask_eq_exp_minus_1)

lemma int32_bytes_length: "length (int32_bytes w) = 4"
  by (simp add: int32_bytes_def)

lemma readInt32BE_int32_bytes: "readInt32BE (int32_bytes w @ rest) = sint w"
proof -
  have "push_bit 24 (ucast (ucast (drop_bit 24 w AND mask 8) :: 8 word)) OR
        push_bit 16 (ucast (ucast (drop_bit 16 w AND mask 8) :: 8 word)) OR
        push_bit 8 (ucast (ucast (drop_bit 8 w AND mask 8) :: 8 word)) OR
        (ucast (ucast (w AND mask 8) :: 8 word) :: 32 word) = w"
  proof (rule bit_word_eqI)
    fix n assume "n < LENGTH(32)"
    then show "bit (push_bit 24 (ucast (ucast (drop_bit 24 w AND mask 8) :: 8 word)) OR
        push_bit 16 (ucast (ucast (drop_bit 16 w AND mask 8) :: 8 word)) OR
        push_bit 8 (ucast (ucast (drop_bit 8 w AND mask 8) :: 8 word)) OR
        (ucast (ucast (w AND mask 8) :: 8 word) :: 32 word)) n = bit w n"
      by (cases "n < 8"; cases "n < 16"; cases "n < 24") (auto simp: bit_simps)
  qed
  then show ?thesis
    by (simp add: readInt32BE_def int32_bytes_def ff_mask)
qed

lemma unat_byte:
  "unat (ucast (drop_bit k (w :: 32 word) AND 0xFF) :: 8 word) = unat w div 2 ^ k mod 256"
proof -
  have "unat (ucast (drop_bit k w AND mask 8) :: 8 word)
        = take_bit 8 (unat (drop_bit k w AND mask 8))"
    by (simp add: unsigned_ucast_eq)
  also have "unat (drop_bit k w AND mask 8) = take_bit 8 (unat (drop_bit k w))"
    by (simp only: unsigned_take_bit_eq flip: take_bit_eq_mask)
  also have "unat (drop_bit k w) = drop_bit k (unat w)"
    by (rule unat_drop_bit_eq)
  finally show ?thesis
    by (simp add: ff_mask take_bit_eq_mod drop_bit_eq_div)
qed

lemma unat_byte0:
  "unat (ucast ((w :: 32 word) AND 0xFF) :: 8 word) = unat w mod 256"
  using unat_byte [of 0 w] by simp

lemma byte_sum:
  fixes n :: nat
  assumes "n < 2 ^ 32"
  shows "n div 2 ^ 24 mod 256 * 2 ^ 24 + n div 2 ^ 16 mod 256 * 2 ^ 16
         + n div 2 ^ 8 mod 256 * 2 ^ 8 + n mod 256 = n"
proof -
  have a: "n mod (2 ^ 8 * 2 ^ 8) = 2 ^ 8 * (n div 2 ^ 8 mod 2 ^ 8) + n mod 2 ^ 8"
    by (rule mod_mult2_eq)
  have b: "n mod (2 ^ 16 * 2 ^ 8) = 2 ^ 16 * (n div 2 ^ 16 mod 2 ^ 8) + n mod 2 ^ 16"
    by (rule mod_mult2_eq)
  have c: "n mod (2 ^ 24 * 2 ^ 8) = 2 ^ 24 * (n div 2 ^ 24 mod 2 ^ 8) + n mod 2 ^ 24"
    by (rule mod_mult2_eq)
  have d: "n mod (2 ^ 24 * 2 ^ 8) = n" using assms by simp
  show ?thesis using a b c d by simp
qed

lemma be_uint32_int32_bytes: "be_uint32 (int32_bytes w) = unat w"
proof -
  have "unat w < 2 ^ 32" using unsigned_less [of w] by simp
  then show ?thesis
    unfolding be_uint32_def int32_bytes_def
    by (simp only: list.case unat_byte [of 24 w] unat_byte [of 16 w] unat_byte [of 8 w]
        unat_byte0 [of w] byte_sum)
qed

lemma unat_length_word: "n < 2 ^ 32 \<Longrightarrow> unat (word_of_nat n :: 32 word) = n"
  by (simp add: unat_of_nat)

lemma sint_length_word: "n < 2 ^ 31 \<Longrightarrow> sint (word_of_nat n :: 32 word) = int n"
  by (simp add: signed_of_nat signed_take_bit_int_eq_self)

lemma int32_nat: "n < 2 ^ 31 \<Longrightarrow> int32 (int n) = int n"
  by (simp add: int32_def sint_length_word)

lemma allocate_in_range:
  "n < 2 ^ 31 \<Longrightarrow> allocate n = Inr \<lparr>buffer = replicate n 0, offset = 0\<rparr>"
  by (simp add: allocate_def int32_nat)

lemma reserve_fits:
  "offset bb + n \<le> length (buffer bb) \<Longrightarrow> reserve n bb = Inr bb"
  by (simp add: reserve_def Let_def)

lemma store_fits:
  "off + length bs \<le> length buf \<Longrightarrow>
   store off bs buf = take off buf @ bs @ drop (off + length bs) buf"
  by (simp add: store_def)

text \<open>
  The buffer \<open>writeSync\<close> builds for a payload that leaves the capacity \<open>4 + 1 + L\<close>
  below \<open>2 ^ 31\<close>: no write passes the end, and nothing is resized.
\<close>

lemma byteBuffer_in_range:
  assumes "4 + 1 + length data < 2 ^ 31"
  shows "byteBuffer data e =
         Inr \<lparr>buffer = int32_bytes (word_of_nat (length data)) @ (if e then 1 else 0) # data,
              offset = 5 + length data\<rparr>"
proof -
  let ?b0 = "\<lparr>buffer = replicate (4 + 1 + length data) 0, offset = 0\<rparr> :: ByteBuffer"
  let ?h = "int32_bytes (word_of_nat (length data))"
  let ?b1 = "\<lparr>buffer = ?h @ replicate (1 + length data) 0, offset = 4\<rparr> :: ByteBuffer"
  let ?f = "(if e then 1 else 0) :: byte"
  let ?b2 = "\<lparr>buffer = ?h @ ?f # replicate (length data) 0, offset = 5\<rparr> :: ByteBuffer"
  have a: "allocate (4 + 1 + length data) = Inr ?b0"
    using assms by (rule allocate_in_range)
  have b: "writeInt (int (length data)) ?b0 = Inr ?b1"
    by (simp add: writeInt_def reserve_fits and_then_def store_fits int32_bytes_length)
  have c: "writeByte (if e then 1 else 0) ?b1 = Inr ?b2"
    by (simp add: writeByte_def reserve_fits and_then_def store_fits int32_bytes_length)
  have d: "append_bb data ?b2 = Inr \<lparr>buffer = ?h @ ?f # data, offset = 5 + length data\<rparr>"
    by (simp add: append_bb_def reserve_fits and_then_def store_fits int32_bytes_length)
  show ?thesis
    by (simp only: byteBuffer_def a b c d and_then_def sum.case)
qed

text \<open>The frame \<open>writeSync\<close> hands to the socket, written out.\<close>

lemma writeSync_Inr:
  assumes "4 + 1 + length data < 2 ^ 31"
  shows "writeSync data e this =
         Inr (this\<lparr>socket_writes := socket_writes this @
                [int32_bytes (word_of_nat (length data)) @ (if e then 1 else 0) # data]\<rparr>)"
  by (simp add: writeSync_def byteBuffer_in_range [OF assms])

text \<open>Whatever the payload, \<open>writeSync\<close> either passes one chunk to the socket or raises.\<close>

lemma writeSync_cases:
  obtains (wrote) f where
    "writeSync data e this = Inr (this\<lparr>socket_writes := socket_writes this @ [f]\<rparr>)"
  | (raised) err where "writeSync data e this = Inl err"
  by (cases "byteBuffer data e") (auto simp: writeSync_def)

text \<open>
  In its range, every frame \<open>writeSync\<close> writes goes to the socket in one \<open>write\<close>
  call, as one chunk of \<open>5 + L\<close> bytes: the payload length \<open>L\<close> as a big-endian unsigned
  32-bit integer, the flag byte (1 when encrypted, 0 otherwise), then the payload;
  nothing else of the state changes.
\<close>

lemma writeSync_in_range:
  fixes isEncrypted :: bool
  assumes "4 + 1 + length data < 2 ^ 31"
  shows "\<exists>frame. writeSync data isEncrypted this =
                   Inr (this\<lparr>socket_writes := socket_writes this @ [frame]\<rparr>)
               \<and> length frame = 5 + length data
               \<and> be_uint32 (take 4 frame) = length data
               \<and> frame ! 4 = (if isEncrypted then 1 else 0)
               \<and> drop 5 frame = data"
proof -
  let ?h = "int32_bytes (word_of_nat (length data))"
  let ?frame = "?h @ (if isEncrypted then 1 else 0) # data"
  have "length data < 2 ^ 32" using assms by simp
  then have "be_uint32 (take 4 ?frame) = length data"
    by (simp add: int32_bytes_length be_uint32_int32_bytes unat_length_word)
  moreover have "?frame ! 4 = (if isEncrypted then 1 else 0)"
    by (simp add: nth_append int32_bytes_length)
  moreover have "drop 5 ?frame = data" "length ?frame = 5 + length data"
    by (simp_all add: int32_bytes_length)
  ultimately show ?thesis
    using writeSync_Inr [OF assms, of isEncrypted this] by blast
qed

text \<open>
  From there on, as long as the capacity \<open>4 + 1 + L\<close> stays below \<open>2 ^ 32\<close>,
  \<open>allocate\<close> raises and nothing is written.
\<close>

lemma int32_negative:
  assumes "2 ^ 31 \<le> n" "n < 2 ^ 32"
  shows "int32 (int n) < 0"
proof -
  have "(2 :: int) ^ 31 \<le> int n" using assms(1) by (simp flip: of_nat_le_iff)
  then have "signed_take_bit 31 (int n) \<le> int n - 2 ^ Suc 31"
    by (rule signed_take_bit_int_less_eq)
  moreover have "int n < 2 ^ 32" using assms(2) by (simp flip: of_nat_less_iff)
  moreover have "(2 :: int) ^ Suc 31 = 2 ^ 32" by simp
  ultimately have "signed_take_bit 31 (int n) < 0" by linarith
  then show ?thesis by (simp add: int32_def signed_of_nat)
qed

lemma writeSync_RangeError:
  assumes "2 ^ 31 \<le> 4 + 1 + length data" "4 + 1 + length data < 2 ^ 32"
  shows "writeSync data e this = Inl RangeError"
proof -
  have "allocate (4 + 1 + length data) = Inl RangeError"
    using int32_negative [OF assms] by (simp only: allocate_def Let_def if_True)
  then show ?thesis
    by (simp only: writeSync_def byteBuffer_def and_then_def sum.case)
qed


text \<open>
  One byte less, and the length still fits the four bytes of the length field, which
  \<open>writeInt\<close> does fill with it. But the capacity \<open>4 + 1 + (2 ^ 32 - 1)\<close> is coerced to
  4, \<open>writeByte\<close> resizes to 8, and \<open>append\<close>, whose \<open>resize\<close> is coerced to 4, copies the
  three bytes that fit.
\<close>

lemma byteBuffer_below_4GiB:
  assumes "length data = 2 ^ 32 - 1"
  shows "byteBuffer data e =
         Inr \<lparr>buffer = [255, 255, 255, 255, if e then 1 else 0] @ take 3 data,
              offset = 2 ^ 32 + 4\<rparr>"
proof -
  let ?f = "(if e then 1 else 0) :: byte"
  have i: "int32 (int (4 + 1 + length data)) = 4" "int32 (int (5 + length data)) = 4"
    unfolding assms by (simp_all add: int32_def)
  have a: "allocate (4 + 1 + length data) = Inr \<lparr>buffer = replicate 4 0, offset = 0\<rparr>"
    by (simp only: allocate_def i Let_def) simp
  have b: "writeInt (int (length data)) \<lparr>buffer = replicate 4 0, offset = 0\<rparr>
           = Inr \<lparr>buffer = [255, 255, 255, 255], offset = 4\<rparr>"
    unfolding assms
    by (simp add: writeInt_def reserve_def and_then_def store_def int32_bytes_def Let_def)
  have c: "writeByte (if e then 1 else 0) \<lparr>buffer = [255, 255, 255, 255], offset = 4\<rparr>
           = Inr \<lparr>buffer = [255, 255, 255, 255, ?f, 0, 0, 0], offset = 5\<rparr>"
    by (simp add: writeByte_def reserve_def resize_def int32_def and_then_def store_def Let_def
        numeral_3_eq_3)
  have ne: "data \<noteq> []" using assms by auto
  have d: "append_bb data \<lparr>buffer = [255, 255, 255, 255, ?f, 0, 0, 0], offset = 5\<rparr>
           = Inr \<lparr>buffer = [255, 255, 255, 255, ?f] @ take 3 data, offset = 2 ^ 32 + 4\<rparr>"
    using ne i(2)
    by (simp add: append_bb_def reserve_def resize_def and_then_def store_def Let_def assms
        numeral_3_eq_3)
  show ?thesis
    by (simp only: byteBuffer_def a b c d and_then_def sum.case)
qed



text \<open>Two frames written one after the other are two chunks, the second after the first.\<close>

lemma writeSync_twice:
  assumes "4 + 1 + length a < 2 ^ 31" "4 + 1 + length b < 2 ^ 31"
  shows "\<exists>this' this'' fa fb. writeSync a ea this = Inr this' \<and> writeSync b eb this' = Inr this''
           \<and> socket_writes this'' = socket_writes this @ [fa, fb]
           \<and> drop 5 fa = a \<and> drop 5 fb = b"
proof -
  let ?fa = "int32_bytes (word_of_nat (length a)) @ (if ea then 1 else 0) # a"
  let ?fb = "int32_bytes (word_of_nat (length b)) @ (if eb then 1 else 0) # b"
  let ?t = "this\<lparr>socket_writes := socket_writes this @ [?fa]\<rparr>"
  let ?u = "?t\<lparr>socket_writes := socket_writes ?t @ [?fb]\<rparr>"
  have "writeSync a ea this = Inr ?t" by (rule writeSync_Inr [OF assms(1)])
  moreover have "writeSync b eb ?t = Inr ?u" by (rule writeSync_Inr [OF assms(2)])
  moreover have "socket_writes ?u = socket_writes this @ [?fa, ?fb]" by simp
  moreover have "drop 5 ?fa = a" "drop 5 ?fb = b" by (simp_all add: int32_bytes_length)
  ultimately show ?thesis by blast
qed

lemma readable_header:
  assumes "messageData r = None" "5 \<le> length (readBuffer r)"
  shows "readable r =
         readable (r\<lparr>readBuffer := drop 5 (readBuffer r),
                     messageData := Some \<lparr>size_md = readInt32BE (take 5 (readBuffer r)),
                                          isEncrypted = (readBuffer r ! 4 \<noteq> 0)\<rparr>\<rparr>)"
  using assms by (subst readable.simps) (simp add: socket_read_def)

lemma readable_no_header:
  assumes "messageData r = None" "length (readBuffer r) < 5"
  shows "readable r = (r, Break)"
  using assms by (subst readable.simps) (simp add: socket_read_def)

lemma readable_no_payload:
  assumes "messageData r = Some md" "size_md md \<le> 0 \<or> int (length (readBuffer r)) < size_md md"
  shows "readable r = (r, Break)"
  using assms by (subst readable.simps) (auto simp: socket_read_def)

lemma readable_payload:
  assumes "messageData r = Some md" "0 < size_md md" "size_md md \<le> int (length (readBuffer r))"
  shows "readable r =
         (let data = take (nat (size_md md)) (readBuffer r);
              rest = drop (nat (size_md md)) (readBuffer r)
          in if previousDecrypt r then
               readable (r\<lparr>readBuffer := rest,
                           received := received r @ [(data, isEncrypted md)],
                           messageData := None\<rparr>)
             else if isEncrypted md then
               (r\<lparr>readBuffer := rest, previousDecrypt := True,
                  received := received r @ [(data, True)]\<rparr>, Await)
             else
               readable (r\<lparr>readBuffer := rest,
                           received := received r @ [(data, False)],
                           messageData := None\<rparr>))"
  using assms by (subst readable.simps) (simp add: socket_read_def Let_def)

text \<open>
  A frame with a payload of at least one byte, written by \<open>writeSync\<close> and read back by a
  handler that is between frames, comes out as one message with the payload and the flag
  of the frame; when it is the first encrypted one the handler is left waiting for its
  decryption, and goes back to waiting for a header once resumed.
\<close>

lemma readable_frame:
  fixes e :: bool
  assumes r: "messageData r = None" "readBuffer r = []"
    and d: "data \<noteq> []" and l: "4 + 1 + length data < 2 ^ 31"
  shows "readable (arrive (int32_bytes (word_of_nat (length data)) @ (if e then 1 else 0) # data) r) =
     (if previousDecrypt r \<or> \<not> e
      then (r\<lparr>readBuffer := [], received := received r @ [(data, e)], messageData := None\<rparr>,
            Break)
      else (r\<lparr>readBuffer := [], previousDecrypt := True,
              received := received r @ [(data, True)],
              messageData := Some \<lparr>size_md = int (length data), isEncrypted = True\<rparr>\<rparr>, Await))"
proof -
  let ?h = "int32_bytes (word_of_nat (length data))"
  let ?f = "(if e then 1 else 0) :: byte"
  let ?r0 = "arrive (?h @ ?f # data) r"
  let ?md = "\<lparr>size_md = int (length data), isEncrypted = e\<rparr>"
  let ?r1 = "r\<lparr>readBuffer := data, messageData := Some ?md\<rparr>"
  have s: "sint (word_of_nat (length data) :: 32 word) = int (length data)"
    using l by (simp add: sint_length_word)
  have t5: "take 5 (?h @ ?f # data) = ?h @ [?f]" "drop 5 (?h @ ?f # data) = data"
    "(?h @ ?f # data) ! 4 = ?f"
    by (simp_all add: int32_bytes_length nth_append)
  have "readable ?r0 = readable ?r1"
    using r by (subst readable_header)
      (simp_all add: arrive_def t5 readInt32BE_int32_bytes s int32_bytes_length)
  also have "\<dots> = (if previousDecrypt r \<or> \<not> e
      then readable (r\<lparr>readBuffer := [], received := received r @ [(data, e)],
                       messageData := None\<rparr>)
      else (r\<lparr>readBuffer := [], previousDecrypt := True,
              received := received r @ [(data, True)],
              messageData := Some \<lparr>size_md = int (length data), isEncrypted = True\<rparr>\<rparr>, Await))"
    using d by (subst readable_payload [where md = ?md]) (auto simp: Let_def)
  also have "readable (r\<lparr>readBuffer := [], received := received r @ [(data, e)],
                       messageData := None\<rparr>)
      = (r\<lparr>readBuffer := [], received := received r @ [(data, e)], messageData := None\<rparr>, Break)"
    by (rule readable_no_header) simp_all
  finally show ?thesis .
qed

lemma resume_after_frame:
  "resume (r\<lparr>readBuffer := [], messageData := Some md\<rparr>) =
     (r\<lparr>readBuffer := [], messageData := None\<rparr>, Break)"
  unfolding resume_def by (subst readable_no_header) simp_all

text \<open>
  C4, at the payload of length 0: \<open>writeSync\<close> writes the five header bytes, and the
  handler that reads them keeps waiting: \<open>read(0)\<close> gives \<open>null\<close>, no message is
  received, \<open>messageData\<close> stays set, and whatever arrives afterwards is never parsed.
\<close>

theorem empty_frame_not_received:
  fixes e :: bool
  shows "writeSync [] e (new_DataProxyTCP ov) =
           Inr ((new_DataProxyTCP ov)\<lparr>socket_writes := [[0, 0, 0, 0, if e then 1 else 0]]\<rparr>)
         \<and> readable (arrive [0, 0, 0, 0, if e then 1 else 0] new_reader) =
             (new_reader\<lparr>messageData := Some \<lparr>size_md = 0, isEncrypted = e\<rparr>\<rparr>, Break)
         \<and> (\<forall>bs. readable (arrive bs (new_reader\<lparr>messageData := Some \<lparr>size_md = 0, isEncrypted = e\<rparr>\<rparr>)) =
               (arrive bs (new_reader\<lparr>messageData := Some \<lparr>size_md = 0, isEncrypted = e\<rparr>\<rparr>), Break))"
proof (intro conjI allI)
  show "writeSync [] e (new_DataProxyTCP ov) =
           Inr ((new_DataProxyTCP ov)\<lparr>socket_writes := [[0, 0, 0, 0, if e then 1 else 0]]\<rparr>)"
    using writeSync_Inr [of "[]" e "new_DataProxyTCP ov"]
    by (simp add: int32_bytes_def new_DataProxyTCP_def)
next
  have "readable (arrive [0, 0, 0, 0, if e then 1 else 0] new_reader) =
        readable (new_reader\<lparr>messageData := Some \<lparr>size_md = 0, isEncrypted = e\<rparr>\<rparr>)"
    by (subst readable_header) (simp_all add: arrive_def new_reader_def readInt32BE_def)
  also have "\<dots> = (new_reader\<lparr>messageData := Some \<lparr>size_md = 0, isEncrypted = e\<rparr>\<rparr>, Break)"
    by (rule readable_no_payload [where md = "\<lparr>size_md = 0, isEncrypted = e\<rparr>"]) simp_all
  finally show "readable (arrive [0, 0, 0, 0, if e then 1 else 0] new_reader) =
             (new_reader\<lparr>messageData := Some \<lparr>size_md = 0, isEncrypted = e\<rparr>\<rparr>, Break)" .
next
  fix bs
  show "readable (arrive bs (new_reader\<lparr>messageData := Some \<lparr>size_md = 0, isEncrypted = e\<rparr>\<rparr>)) =
               (arrive bs (new_reader\<lparr>messageData := Some \<lparr>size_md = 0, isEncrypted = e\<rparr>\<rparr>), Break)"
    by (rule readable_no_payload [where md = "\<lparr>size_md = 0, isEncrypted = e\<rparr>"])
      (simp_all add: arrive_def)
qed

theorem empty_frame_not_received_witness:
  "received (fst (readable (arrive [0, 0, 0, 0, 1] new_reader))) = []
   \<and> received (fst (readable (arrive [0, 0, 0, 1, 0, 42]
        (fst (readable (arrive [0, 0, 0, 0, 1] new_reader)))))) = []"
  using empty_frame_not_received [of True None]
  by (simp add: new_reader_def arrive_def)

text \<open>
  Between frames, the flag of a frame is \<open>true\<close> exactly when the fifth header byte is
  not zero, and it is fixed when the header is read, with no payload byte taken yet: the
  message that follows is received with that flag.
\<close>

lemma flag_between_frames:
  assumes "length header = 5" "messageData r = None" "readBuffer r = []"
    and "readInt32BE header = int (length payload)" "payload \<noteq> []"
  shows "readable (arrive header r) =
           (r\<lparr>readBuffer := [],
              messageData := Some \<lparr>size_md = int (length payload),
                                   isEncrypted = (header ! 4 \<noteq> 0)\<rparr>\<rparr>, Break)
         \<and> received (fst (readable (arrive (header @ payload) r))) =
             received r @ [(payload, header ! 4 \<noteq> 0)]"
proof (intro conjI)
  let ?md = "\<lparr>size_md = int (length payload), isEncrypted = (header ! 4 \<noteq> 0)\<rparr>"
  have "readable (arrive header r) = readable (r\<lparr>readBuffer := [], messageData := Some ?md\<rparr>)"
    using assms(1-4) by (subst readable_header) (simp_all add: arrive_def)
  also have "\<dots> = (r\<lparr>readBuffer := [], messageData := Some ?md\<rparr>, Break)"
    using assms(5) by (intro readable_no_payload [where md = ?md]) auto
  finally show "readable (arrive header r) = (r\<lparr>readBuffer := [], messageData := Some ?md\<rparr>, Break)" .
next
  let ?md = "\<lparr>size_md = int (length payload), isEncrypted = (header ! 4 \<noteq> 0)\<rparr>"
  let ?r1 = "r\<lparr>readBuffer := payload, messageData := Some ?md\<rparr>"
  let ?r2 = "\<lambda>b. r\<lparr>readBuffer := [], received := received r @ [(payload, b)], messageData := None\<rparr>"
  have h: "readable (arrive (header @ payload) r) = readable ?r1"
    using assms(1-4) by (subst readable_header) (simp_all add: arrive_def nth_append)
  have b: "readable (?r2 b) = (?r2 b, Break)" for b
    by (rule readable_no_header) simp_all
  have "received (fst (readable ?r1)) = received r @ [(payload, header ! 4 \<noteq> 0)]"
    using assms(5) by (subst readable_payload [where md = ?md]) (auto simp: Let_def b)
  with h show "received (fst (readable (arrive (header @ payload) r))) =
             received r @ [(payload, header ! 4 \<noteq> 0)]" by simp
qed

text \<open>On the write side the flag byte is 1 for an encrypted frame and 0 otherwise.\<close>

lemma flag_written:
  fixes e :: bool
  assumes "4 + 1 + length data < 2 ^ 31"
  shows "\<exists>this'. writeSync data e this = Inr this'
           \<and> last (socket_writes this') ! 4 = (if e then 1 else 0)"
  using writeSync_Inr [OF assms, of e this] by (auto simp: nth_append int32_bytes_length)

text \<open>
  C10. The claim: an inbound frame is treated as encrypted exactly when its flag byte
  is not zero. The code does not keep to it while the first decryption is awaited. The
  handler that took the first encrypted message off the stream is suspended at its
  \<open>await\<close> with \<open>messageData\<close> still set, since \<open>messageData = undefined\<close> comes after the
  \<open>await\<close>. A frame that arrives meanwhile is read by the next run of the handler with
  the size and the flag of the frame before. Here the encrypted frame
  \<open>00 00 00 02 01 09 08\<close> is followed by the unencrypted frame \<open>00 00 00 01 00 05\<close>, as
  \<open>writeSync\<close> writes it for the payload \<open>05\<close>: its first two header bytes are received
  as an encrypted message, its flag byte is never looked at, and the bytes that are left
  wait for a header of five bytes.
\<close>

theorem stale_flag_while_decrypting:
  "readable (arrive [0, 0, 0, 2, 1, 9, 8] new_reader) =
     (\<lparr>readBuffer = [], messageData = Some \<lparr>size_md = 2, isEncrypted = True\<rparr>,
       previousDecrypt = True, received = [([9, 8], True)]\<rparr>, Await)
   \<and> writeSync [5] False (new_DataProxyTCP None) =
       Inr ((new_DataProxyTCP None)\<lparr>socket_writes := [[0, 0, 0, 1, 0, 5]]\<rparr>)
   \<and> readable (arrive [0, 0, 0, 1, 0, 5]
        (fst (readable (arrive [0, 0, 0, 2, 1, 9, 8] new_reader)))) =
     (\<lparr>readBuffer = [0, 1, 0, 5], messageData = None, previousDecrypt = True,
       received = [([9, 8], True), ([0, 0], True)]\<rparr>, Break)
   \<and> resume \<lparr>readBuffer = [0, 1, 0, 5], messageData = None, previousDecrypt = True,
       received = [([9, 8], True), ([0, 0], True)]\<rparr> =
     (\<lparr>readBuffer = [0, 1, 0, 5], messageData = None, previousDecrypt = True,
       received = [([9, 8], True), ([0, 0], True)]\<rparr>, Break)"
proof -
  let ?md = "\<lparr>size_md = 2, isEncrypted = True\<rparr>"
  let ?r1 = "\<lparr>readBuffer = [], messageData = Some ?md, previousDecrypt = True,
              received = [([9, 8], True)]\<rparr>"
  let ?r2 = "\<lparr>readBuffer = [0, 1, 0, 5], messageData = None, previousDecrypt = True,
              received = [([9, 8], True), ([0, 0], True)]\<rparr>"
  have a: "readable (arrive [0, 0, 0, 2, 1, 9, 8] new_reader) = (?r1, Await)"
    using readable_frame [of new_reader "[9, 8]" True]
    by (simp add: new_reader_def int32_bytes_def)
  have w: "writeSync [5] False (new_DataProxyTCP None) =
       Inr ((new_DataProxyTCP None)\<lparr>socket_writes := [[0, 0, 0, 1, 0, 5]]\<rparr>)"
    using writeSync_Inr [of "[5]" False "new_DataProxyTCP None"]
    by (simp add: int32_bytes_def new_DataProxyTCP_def)
  have c: "readable ?r2 = (?r2, Break)"
    by (rule readable_no_header) simp_all
  have "readable (arrive [0, 0, 0, 1, 0, 5] ?r1) = readable ?r2"
    by (subst readable_payload [where md = ?md]) (simp_all add: arrive_def Let_def)
  with c have b: "readable (arrive [0, 0, 0, 1, 0, 5] ?r1) = (?r2, Break)" by simp
  have d: "resume ?r2 = (?r2, Break)"
    unfolding resume_def using c by simp
  show ?thesis
    unfolding a using w b d by simp
qed

section \<open>Properties of the connection life cycle\<close>

lemma parseAddress_examples:
  "parseAddress ''10.0.0.5:2000'' = \<lparr>host = ''10.0.0.5'', port = Integer 2000\<rparr>"
  "parseAddress ''relay.example.com'' = \<lparr>host = ''relay.example.com'', port = Integer 1359\<rparr>"
  by (simp_all add: parseAddress_def port_alternatives_def digit_def char_range_def
      parseInt_def StrWhiteSpaceChar_def radix_digit_def digit_value_def mathInt_def
      to_number_def)

lemma start_isStopping: "isStopping (start ls this)"
  by (simp add: start_def Let_def notifyClose_def socket_connect_def
      split: option.splits prod.splits)

lemma close_listener_stopping:
  "isStopping this \<Longrightarrow> close_listener a this = notifyClose Connection this"
  by (simp add: close_listener_def split: option.splits)

text \<open>
  The fallback is dialled by a close listener only while \<open>isStopping\<close> is not set.
\<close>

lemma close_listener_fallback:
  "\<not> isStopping this \<Longrightarrow> close_listener (Some a) this = socket_connect a this"
  by (simp add: close_listener_def)

lemma fold_close_listener_stopping:
  "isStopping this \<Longrightarrow>
   fold close_listener as this =
     this\<lparr>notifications := notifications this @ replicate (length as) (Close Connection)\<rparr>"
proof (induction as arbitrary: this)
  case Nil
  then show ?case by simp
next
  case (Cons a as)
  have "isStopping (notifyClose Connection this)" using Cons.prems by (simp add: notifyClose_def)
  from Cons.IH [OF this] Cons.prems show ?case
    by (simp add: close_listener_stopping notifyClose_def replicate_app_Cons_same)
qed

lemma socket_closed_stopping:
  "isStopping this \<Longrightarrow>
   socket_closed this =
     this\<lparr>notifications := notifications this
              @ replicate (length (closeListeners this)) (Close Connection)\<rparr>"
  by (simp add: socket_closed_def fold_close_listener_stopping)

lemma notifyOpen_funpow_isStopping: "isStopping ((notifyOpen ^^ n) this) = isStopping this"
  by (induction n) (simp_all add: notifyOpen_def)

lemma writeSync_isStopping: "writeSync data e this = Inr this' \<Longrightarrow> isStopping this' = isStopping this"
  by (auto simp: writeSync_def Let_def split: sum.splits)

lemma operate_isStopping: "isStopping this \<Longrightarrow> isStopping (operate op this)"
  by (cases op)
    (auto simp: start_isStopping stop_def socket_connected_def notifyOpen_funpow_isStopping
      socket_closed_stopping writeSync_isStopping split: sum.splits)

lemma run_isStopping: "isStopping this \<Longrightarrow> isStopping (run ops this)"
  unfolding run_def by (induction ops arbitrary: this) (simp_all add: operate_isStopping)

text \<open>
  C1, on the code: \<open>start\<close> leaves \<open>isStopping\<close> set, so a close of the socket after
  \<open>start\<close> never connects to the fallback address, configured or not: every close
  listener reports the connection failure instead.
\<close>

theorem close_after_start:
  "socket_connects (socket_closed (start ls this)) = socket_connects (start ls this)
   \<and> notifications (socket_closed (start ls this)) =
       notifications (start ls this)
       @ replicate (length (closeListeners (start ls this))) (Close Connection)"
  by (simp add: socket_closed_stopping [OF start_isStopping])

theorem close_after_start_witness:
  "socket_connects (socket_closed (start (\<lambda>k. None) (new_DataProxyTCP
       (Some \<lparr>primary = ''10.0.0.5:2000'', fallback = Some ''relay.example.com''\<rparr>))))
     = [(Integer 2000, ''10.0.0.5'')]
   \<and> notifications (socket_closed (start (\<lambda>k. None) (new_DataProxyTCP
       (Some \<lparr>primary = ''10.0.0.5:2000'', fallback = Some ''relay.example.com''\<rparr>))))
     = [Close Connection]
   \<and> closeListeners (start (\<lambda>k. None) (new_DataProxyTCP
       (Some \<lparr>primary = ''10.0.0.5:2000'', fallback = Some ''relay.example.com''\<rparr>)))
     = [Some \<lparr>host = ''relay.example.com'', port = Integer 1359\<rparr>]"
proof -
  have p: "parseAddress ''10.0.0.5:2000'' = \<lparr>host = ''10.0.0.5'', port = Integer 2000\<rparr>"
    "parseAddress ''relay.example.com'' = \<lparr>host = ''relay.example.com'', port = Integer 1359\<rparr>"
    by (rule parseAddress_examples)+
  show ?thesis
    using close_after_start [of "\<lambda>k. None" "new_DataProxyTCP
       (Some \<lparr>primary = ''10.0.0.5:2000'', fallback = Some ''relay.example.com''\<rparr>)"]
    by (simp add: start_def new_DataProxyTCP_def socket_connect_def p)
qed

text \<open>
  C7. Once \<open>stop\<close> has been called, whatever happens in between, a close of the socket
  makes no connection attempt: each close listener reports the close to the owner.
\<close>

theorem close_after_stop:
  "socket_connects (socket_closed (run ops (stop this))) = socket_connects (run ops (stop this))
   \<and> notifications (socket_closed (run ops (stop this))) =
       notifications (run ops (stop this))
       @ replicate (length (closeListeners (run ops (stop this)))) (Close Connection)"
proof -
  have "isStopping (run ops (stop this))"
    by (rule run_isStopping) (simp add: stop_def)
  then show ?thesis by (simp add: socket_closed_stopping)
qed

theorem close_after_stop_witness:
  "socket_connects (socket_closed (run [Connected] (stop (start (\<lambda>k. None) (new_DataProxyTCP
       (Some \<lparr>primary = ''10.0.0.5:2000'', fallback = Some ''relay.example.com''\<rparr>))))))
     = [(Integer 2000, ''10.0.0.5'')]
   \<and> notifications (socket_closed (run [Connected] (stop (start (\<lambda>k. None) (new_DataProxyTCP
       (Some \<lparr>primary = ''10.0.0.5:2000'', fallback = Some ''relay.example.com''\<rparr>))))))
     = [Open, Close Connection]"
  using close_after_stop [of "[Connected]" "start (\<lambda>k. None) (new_DataProxyTCP
       (Some \<lparr>primary = ''10.0.0.5:2000'', fallback = Some ''relay.example.com''\<rparr>))"]
  by (simp add: start_def new_DataProxyTCP_def socket_connect_def parseAddress_examples
      run_def stop_def socket_connected_def notifyOpen_def)

text \<open>
  C8. With no address override and no stored server address, \<open>start\<close> reports a
  connection failure to the owner and returns: it makes no connection attempt and
  registers no listener on the socket.
\<close>

theorem start_without_address:
  assumes "override this = None" "ls ServerAddress = None"
  shows "start ls this = notifyClose Connection (this\<lparr>isStopping := True\<rparr>)
         \<and> socket_connects (start ls this) = socket_connects this
         \<and> notifications (start ls this) = notifications this @ [Close Connection]
         \<and> closeListeners (start ls this) = closeListeners this"
  using assms by (simp add: start_def notifyClose_def)

theorem start_without_address_witness:
  "start (\<lambda>k. None) (new_DataProxyTCP None) =
     (new_DataProxyTCP None)\<lparr>isStopping := True, notifications := [Close Connection]\<rparr>
   \<and> socket_connects (start (\<lambda>k. None) (new_DataProxyTCP None)) = []"
proof -
  have a: "override (new_DataProxyTCP None) = None"
    "(\<lambda>k::SecureStorageKey. None :: string option) ServerAddress = None"
    by (simp_all add: new_DataProxyTCP_def)
  show ?thesis
    using start_without_address [OF a] by (simp add: new_DataProxyTCP_def notifyClose_def)
qed

section \<open>Properties of the configuration dialog\<close>

lemma disable_append:
  "disableAutomaticReconnections b (cs @ cs') =
     disableAutomaticReconnections (disableAutomaticReconnections b cs) cs'"
  by (simp add: disableAutomaticReconnections_def)

lemma submitForm_flag:
  "disableAutomaticReconnections b (calls d) \<Longrightarrow>
   disableAutomaticReconnections b (calls (submitForm matches d))"
  by (simp add: submitForm_def Let_def disable_append)
     (simp add: disableAutomaticReconnections_def)

lemma dialog_step_flag:
  assumes "disableAutomaticReconnections b (calls d)" "ev \<noteq> Finish"
  shows "disableAutomaticReconnections b (calls (dialog_step matches ev d))"
  using assms
  by (cases ev) (simp_all add: submitForm_flag promise_settled_def disable_append,
      simp_all add: disableAutomaticReconnections_def)

lemma dialog_run_flag:
  assumes "disableAutomaticReconnections b (calls d)" "Finish \<notin> set evs"
  shows "disableAutomaticReconnections b (calls (dialog_run matches evs d))"
  using assms unfolding dialog_run_def
proof (induction evs arbitrary: d)
  case Nil
  then show ?case by simp
next
  case (Cons ev evs)
  from Cons.prems have "ev \<noteq> Finish" "Finish \<notin> set evs" by auto
  with Cons.prems(1) have "disableAutomaticReconnections b (calls (dialog_step matches ev d))"
    by (simp add: dialog_step_flag)
  from Cons.IH [OF this \<open>Finish \<notin> set evs\<close>] show ?case by simp
qed

text \<open>
  C9. A valid submission of the form sets the flag that suppresses automatic
  reconnections and calls no \<open>connect()\<close> itself; \<open>connect()\<close> is called when the
  promise of the submission is fulfilled, after the flag was set. Through everything that
  happens afterwards the flag stays set, so that no reconnection is scheduled, as long as
  the user has not finished the dialog; \<open>finish\<close> clears it.
\<close>

theorem reconnections_suppressed_during_check:
  assumes "inputValid matches d"
  shows "calls (submitForm matches d) =
           calls d @
           [setDataProxy \<lparr>primary = address d,
                          fallback = (if length (fallbackAddress d) > 0
                                      then Some (fallbackAddress d) else None)\<rparr>,
            setDisableAutomaticReconnections True,
            setCryptoPassword (password d),
            setSecureLS ServerAddress (Some (address d)),
            setSecureLS ServerAddressFallback
              (if length (fallbackAddress d) > 0 then Some (fallbackAddress d) else None),
            setSecureLS ServerPassword (Some (password d))]
         \<and> calls (promise_settled True (submitForm matches d)) =
             calls (submitForm matches d) @ [connect]
         \<and> (Finish \<notin> set evs \<longrightarrow>
              disableAutomaticReconnections b (calls (dialog_run matches evs (submitForm matches d)))
              \<and> \<not> reconnects_on_close b (calls (dialog_run matches evs (submitForm matches d))))
         \<and> \<not> disableAutomaticReconnections b
               (calls (finish (dialog_run matches evs (submitForm matches d))))"
proof (intro conjI impI)
  show "calls (submitForm matches d) =
           calls d @
           [setDataProxy \<lparr>primary = address d,
                          fallback = (if length (fallbackAddress d) > 0
                                      then Some (fallbackAddress d) else None)\<rparr>,
            setDisableAutomaticReconnections True,
            setCryptoPassword (password d),
            setSecureLS ServerAddress (Some (address d)),
            setSecureLS ServerAddressFallback
              (if length (fallbackAddress d) > 0 then Some (fallbackAddress d) else None),
            setSecureLS ServerPassword (Some (password d))]"
    using assms by (simp add: submitForm_def Let_def)
  show "calls (promise_settled True (submitForm matches d)) =
             calls (submitForm matches d) @ [connect]"
    using assms by (simp add: submitForm_def Let_def promise_settled_def)
  have f: "disableAutomaticReconnections b (calls (submitForm matches d))"
    using assms by (simp add: submitForm_def Let_def disable_append)
      (simp add: disableAutomaticReconnections_def)
  show "\<not> disableAutomaticReconnections b
               (calls (finish (dialog_run matches evs (submitForm matches d))))"
    by (simp add: finish_def disable_append) (simp add: disableAutomaticReconnections_def)
  assume "Finish \<notin> set evs"
  with f show "disableAutomaticReconnections b (calls (dialog_run matches evs (submitForm matches d)))"
    by (rule dialog_run_flag)
  then show "\<not> reconnects_on_close b (calls (dialog_run matches evs (submitForm matches d)))"
    by (simp add: reconnects_on_close_def)
qed

theorem reconnections_suppressed_during_check_witness:
  "disableAutomaticReconnections False
     (calls (dialog_run (\<lambda>s. s \<noteq> []) [PromiseSettled True, OnConnecting, OnOpen]
        (submitForm (\<lambda>s. s \<noteq> [])
           (new_ConnectionConfigDialog\<lparr>address := ''10.0.0.5:2000'', password := ''secret''\<rparr>))))
   \<and> \<not> disableAutomaticReconnections False
     (calls (finish (dialog_run (\<lambda>s. s \<noteq> []) [PromiseSettled True, OnConnecting, OnOpen]
        (submitForm (\<lambda>s. s \<noteq> [])
           (new_ConnectionConfigDialog\<lparr>address := ''10.0.0.5:2000'', password := ''secret''\<rparr>)))))"
proof -
  have v: "inputValid (\<lambda>s. s \<noteq> [])
             (new_ConnectionConfigDialog\<lparr>address := ''10.0.0.5:2000'', password := ''secret''\<rparr>)"
    by (simp add: inputValid_def new_ConnectionConfigDialog_def)
  have n: "Finish \<notin> set [PromiseSettled True, OnConnecting, OnOpen]" by simp
  from reconnections_suppressed_during_check
      [OF v, of "[PromiseSettled True, OnConnecting, OnOpen]" False]
  have "(Finish \<notin> set [PromiseSettled True, OnConnecting, OnOpen] \<longrightarrow>
          disableAutomaticReconnections False
           (calls (dialog_run (\<lambda>s. s \<noteq> []) [PromiseSettled True, OnConnecting, OnOpen]
             (submitForm (\<lambda>s. s \<noteq> [])
               (new_ConnectionConfigDialog\<lparr>address := ''10.0.0.5:2000'', password := ''secret''\<rparr>))))
          \<and> \<not> reconnects_on_close False
           (calls (dialog_run (\<lambda>s. s \<noteq> []) [PromiseSettled True, OnConnecting, OnOpen]
             (submitForm (\<lambda>s. s \<noteq> [])
               (new_ConnectionConfigDialog\<lparr>address := ''10.0.0.5:2000'', password := ''secret''\<rparr>)))))"
    and "\<not> disableAutomaticReconnections False
     (calls (finish (dialog_run (\<lambda>s. s \<noteq> []) [PromiseSettled True, OnConnecting, OnOpen]
        (submitForm (\<lambda>s. s \<noteq> [])
           (new_ConnectionConfigDialog\<lparr>address := ''10.0.0.5:2000'', password := ''secret''\<rparr>)))))"
    by (rule conjunct1 [OF conjunct2 [OF conjunct2]], rule conjunct2 [OF conjunct2 [OF conjunct2]])
  with n show ?thesis by (elim impE conjE) (assumption, rule conjI)
qed

section \<open>Properties of the outbound pipeline\<close>

text \<open>The chain of promises behind \<open>previousEncrypt\<close>, when a send joins it and when its head settles.\<close>

lemma waiting_bound: "waiting H prev p pre ks \<Longrightarrow> p < length H"
  by (induction H prev p pre ks rule: waiting.induct) auto

lemma waiting_last: "waiting H prev p pre ks \<Longrightarrow> \<exists>l c. prev = Some l \<and> p \<le> l \<and> l < length H \<and> H ! l = Pending c"
  by (induction H prev p pre ks rule: waiting.induct) fastforce+

lemma waiting_alloc: "waiting H prev p pre ks \<Longrightarrow> waiting (H @ [x]) prev p pre ks"
  by (induction H prev p pre ks rule: waiting.induct) (auto simp: nth_append)

lemma waiting_below: "waiting H prev p pre ks \<Longrightarrow> i < p \<Longrightarrow> waiting (H[i := x]) prev p pre ks"
  by (induction H prev p pre ks rule: waiting.induct) auto

lemma waiting_aside:
  assumes "H ! i = Pending (ChainedAwait n d # r)"
  shows "waiting H prev p [] ks \<Longrightarrow> waiting (H[i := x]) prev p [] ks"
proof (induction ks arbitrary: p)
  case Nil
  then have "p \<noteq> i" using assms by auto
  with Nil show ?case by simp
next
  case (Cons k ks)
  then obtain n' data' e' d' where k: "k = ChainedSend n' data' e' d'"
    by (cases k) auto
  with Cons.prems have "p \<noteq> i" using assms by auto
  with Cons k show ?case by simp
qed

lemma waiting_send:
  assumes "waiting H (Some l) p pre ks" and "k = ChainedSend n data e (length H)"
  shows "\<exists>c. l < length H \<and> H ! l = Pending c
           \<and> waiting ((H @ [Pending []])[l := Pending (c @ [k])]) (Some (length H)) p pre (ks @ [k])"
  using assms
proof (induction H "Some l" p pre ks rule: waiting.induct)
  case (1 H p pre)
  then show ?case by (auto simp: nth_append nth_list_update)
next
  case (2 H p pre n' data' e' d ks)
  then have w: "waiting H (Some l) d [] ks" and pd: "p < d" and pl: "p < length H"
    and hp: "H ! p = Pending (pre @ [ChainedSend n' data' e' d])" by auto
  from "2.hyps" [OF w "2.prems"(2)] obtain c where
    c: "l < length H" "H ! l = Pending c"
       "waiting ((H @ [Pending []])[l := Pending (c @ [k])]) (Some (length H)) d [] (ks @ [k])"
    by blast
  from waiting_last [OF w] pd have "p \<noteq> l" by auto
  with c hp pl pd show ?case by (auto simp: nth_append nth_list_update)
next
  case (3 H p pre n ks)
  then show ?case by simp
next
  case (4 H p pre n d ks)
  then show ?case by simp
qed

lemma waiting_last_empty:
  "waiting H prev p [] ks \<Longrightarrow> \<exists>l. prev = Some l \<and> p \<le> l \<and> l < length H \<and> H ! l = Pending []"
proof (induction ks arbitrary: p)
  case Nil
  then show ?case by auto
next
  case (Cons k ks)
  then obtain n data e d where k: "k = ChainedSend n data e d" by (cases k) auto
  with Cons.prems have "waiting H prev d [] ks" "p < d" by auto
  from Cons.IH [OF this(1)] \<open>p < d\<close> show ?case by fastforce
qed

lemma settle_Pending:
  "p < length (promises this) \<Longrightarrow> promises this ! p = Pending ks \<Longrightarrow>
   settle p out this =
     this\<lparr>promises := (promises this)[p := Settled out],
          microtasks := microtasks this @ map (\<lambda>k. (k, out)) ks\<rparr>"
  by (simp add: settle_def)

lemma queued_settle:
  assumes "waiting H prev p pre ks"
  shows "\<exists>q c. p < length H \<and> H ! p = Pending c
           \<and> map (\<lambda>k. (k, out)) c = map (\<lambda>k. (k, out)) pre @ q
           \<and> queued (H[p := Settled out]) prev q out ks"
proof (cases ks)
  case Nil
  with assms show ?thesis by (auto simp: queued_def)
next
  case (Cons k ks')
  with assms obtain n data e d where k: "k = ChainedSend n data e d" by (cases k) auto
  with assms Cons have "p < d" "waiting H prev d [] ks'" "p < length H"
    "H ! p = Pending (pre @ [k])" by auto
  moreover from this have "waiting (H[p := Settled out]) prev d [] ks'"
    by (simp add: waiting_below)
  ultimately show ?thesis using Cons k by (auto simp: queued_def)
qed

lemma queued_send:
  assumes "queued H (Some l) q out ks" and k: "k = ChainedSend n data e (length H)"
  shows "(\<exists>c. l < length H \<and> H ! l = Pending c
            \<and> queued ((H @ [Pending []])[l := Pending (c @ [k])]) (Some (length H)) q out (ks @ [k]))
       \<or> (l < length H \<and> H ! l = Settled out \<and> ks = [] \<and> q = []
            \<and> queued (H @ [Pending []]) (Some (length H)) [(k, out)] out [k])"
proof (cases ks)
  case Nil
  with assms show ?thesis by (auto simp: queued_def nth_append)
next
  case (Cons k0 ks')
  with assms obtain n0 data0 e0 d0 where k0: "k0 = ChainedSend n0 data0 e0 d0"
    and w: "waiting H (Some l) d0 [] ks'" and q: "q = [(k0, out)]"
    by (auto simp: queued_def)
  from waiting_send [OF w k] obtain c where "l < length H" "H ! l = Pending c"
    "waiting ((H @ [Pending []])[l := Pending (c @ [k])]) (Some (length H)) d0 [] (ks' @ [k])"
    by blast
  with Cons k0 q show ?thesis by (auto simp: queued_def)
qed

lemma queued_previous:
  "queued H prev q out ks \<Longrightarrow> \<exists>l. prev = Some l \<and> l < length H"
  by (cases ks) (auto simp: queued_def dest: waiting_last)

text \<open>\<open>send\<close>, written out for a state of known shape.\<close>

lemma send_chained:
  assumes "previousEncrypt this = Some l" "l < length (promises this)"
  shows "send data e this =
     (case promises this ! l of
        Pending c \<Rightarrow>
          this\<lparr>sends := sends this + 1,
               promises := (promises this @ [Pending []])
                 [l := Pending (c @ [ChainedSend (sends this) data e (length (promises this))])],
               previousEncrypt := Some (length (promises this))\<rparr>
      | Settled out \<Rightarrow>
          this\<lparr>sends := sends this + 1,
               promises := promises this @ [Pending []],
               microtasks := microtasks this
                 @ [(ChainedSend (sends this) data e (length (promises this)), out)],
               previousEncrypt := Some (length (promises this))\<rparr>)"
  using assms
  by (simp add: send_def new_promise_def on_settled_def Let_def nth_append split: promise.splits)

lemma send_first:
  assumes "previousEncrypt this = None"
  shows "send data True this =
           this\<lparr>sends := sends this + 1,
                promises := promises this @ [Pending [SendAwait (sends this)]],
                encrypting := encrypting this @ [(length (promises this), sends this, data)],
                previousEncrypt := Some (length (promises this))\<rparr>"
    and "send data False this = fst (write_frame data False (this\<lparr>sends := sends this + 1\<rparr>))"
  using assms
  by (simp_all add: send_def new_promise_def encryptData_def on_settled_def Let_def)

lemma settle_fields [simp]:
  "sends (settle p out this) = sends this"
  "socket_writes (settle p out this) = socket_writes this"
  "encrypting (settle p out this) = encrypting this"
  "previousEncrypt (settle p out this) = previousEncrypt this"
  by (simp_all add: settle_def split: promise.splits)

text \<open>A call of \<open>writeSync\<close> passes the buffer it has built to the socket, or raises.\<close>

lemma write_frame_cases:
  obtains (wrote) bb where "byteBuffer data e = Inr bb"
    "write_frame data e this = (this\<lparr>socket_writes := socket_writes this @ [buffer bb]\<rparr>, True)"
  | (raised) err where "byteBuffer data e = Inl err" "write_frame data e this = (this, False)"
  by (cases "byteBuffer data e") (auto simp: write_frame_def writeSync_def)

lemma raised_not_in_range: "byteBuffer pl e = Inl err \<Longrightarrow> \<not> 4 + 1 + length pl < 2 ^ 31"
  using byteBuffer_in_range [of pl e] by auto

lemma chunk_plain:
  "byteBuffer data False = Inr bb \<Longrightarrow> chunk_of enc n (data, False) = buffer bb"
  by (simp add: chunk_of_def payload_of_def)

lemma chunk_cipher:
  "snd (cs ! n) \<Longrightarrow> answer enc cs n = Fulfilled c \<Longrightarrow> byteBuffer c True = Inr bb \<Longrightarrow>
   chunk_of enc n (cs ! n) = buffer bb"
  by (auto simp: chunk_of_def payload_of_def answer_def split: option.splits)

lemma plain_raised:
  "byteBuffer data False = Inl err \<Longrightarrow> \<not> sendable enc n (data, False)"
  using raised_not_in_range [of data False err] by (simp add: sendable_def payload_of_def)

lemma cipher_raised:
  "snd (cs ! n) \<Longrightarrow> answer enc cs n = Fulfilled c \<Longrightarrow> byteBuffer c True = Inl err \<Longrightarrow>
   \<not> sendable enc n (cs ! n)"
  using raised_not_in_range [of c True err]
  by (auto simp: sendable_def payload_of_def answer_def split: option.splits)

lemma cipher_rejected:
  "snd (cs ! n) \<Longrightarrow> answer enc cs n = Rejected \<Longrightarrow> \<not> sendable enc n (cs ! n)"
  by (auto simp: sendable_def payload_of_def answer_def split: option.splits)

lemma chunk_wire: "sendable enc n c \<Longrightarrow> chunk_of enc n c = wire enc n c"
  by (auto simp: sendable_def chunk_of_def wire_def frame_of_def byteBuffer_in_range
      split: option.splits)

text \<open>One more call.\<close>

lemma agrees_call: "agrees cs k \<Longrightarrow> agrees (cs @ [c]) k"
  by (cases k) (auto simp: nth_append)

lemma answer_call: "n < length cs \<Longrightarrow> answer enc (cs @ [c]) n = answer enc cs n"
  by (simp add: answer_def nth_append)

lemma blamed_call:
  "blamed enc cs ks \<Longrightarrow> tag k = length cs \<Longrightarrow> blamed enc (cs @ [c]) (ks @ [k])"
proof -
  assume "blamed enc cs ks" and t: "tag k = length cs"
  then obtain m where m: "m < length cs" "\<not> sendable enc m (cs ! m)" "\<forall>k \<in> set ks. m < tag k"
    unfolding blamed_def by blast
  then have "m < length (cs @ [c]) \<and> \<not> sendable enc m ((cs @ [c]) ! m)
      \<and> (\<forall>k' \<in> set (ks @ [k]). m < tag k')"
    using t by (auto simp: nth_append)
  then show ?thesis unfolding blamed_def by blast
qed

text \<open>How the agenda goes on: a call is made, its chunk is written, or it is given up.\<close>

lemma agenda_shift: "agenda enc cs (ws @ [t]) ts \<longleftrightarrow> agenda enc cs ws (t # ts)"
  by (simp add: agenda_def)

lemma agenda_call:
  assumes "agenda enc cs ws ts"
  shows "agenda enc (cs @ [c]) ws (ts @ [length cs])"
proof -
  from assms have s: "sorted_wrt (<) (ws @ ts)"
    and b: "\<forall>n \<in> set (ws @ ts). n < length cs"
    and v: "\<forall>n<length cs. n \<in> set (ws @ ts) \<or> (\<exists>m\<le>n. \<not> sendable enc m (cs ! m))"
    by (simp_all add: agenda_def)
  have "sorted_wrt (<) ((ws @ ts) @ [length cs])"
    by (subst sorted_wrt_append) (use s b in simp)
  moreover have "\<forall>n \<in> set ((ws @ ts) @ [length cs]). n < length (cs @ [c])"
    using b by (auto simp: less_Suc_eq)
  moreover have "n \<in> set ((ws @ ts) @ [length cs])
      \<or> (\<exists>m\<le>n. \<not> sendable enc m ((cs @ [c]) ! m))" if "n < length (cs @ [c])" for n
  proof (cases "n = length cs")
    case True
    then show ?thesis by simp
  next
    case False
    with that have n: "n < length cs" by simp
    with v have "n \<in> set (ws @ ts) \<or> (\<exists>m\<le>n. \<not> sendable enc m (cs ! m))" by blast
    then show ?thesis
    proof
      assume "n \<in> set (ws @ ts)"
      then show ?thesis by simp
    next
      assume "\<exists>m\<le>n. \<not> sendable enc m (cs ! m)"
      then obtain m where "m \<le> n" "\<not> sendable enc m (cs ! m)" by blast
      with n have "m \<le> n \<and> \<not> sendable enc m ((cs @ [c]) ! m)" by (simp add: nth_append)
      then show ?thesis by blast
    qed
  qed
  ultimately show ?thesis unfolding agenda_def by (simp only: append_assoc) blast
qed

lemma agenda_drop:
  assumes "agenda enc cs ws (t # ts)" and "\<exists>m\<le>t. \<not> sendable enc m (cs ! m)"
  shows "agenda enc cs ws ts"
proof -
  from assms(1) have s: "sorted_wrt (<) (ws @ t # ts)"
    and b: "\<forall>n \<in> set (ws @ t # ts). n < length cs"
    and v: "\<forall>n<length cs. n \<in> set (ws @ t # ts) \<or> (\<exists>m\<le>n. \<not> sendable enc m (cs ! m))"
    by (simp_all add: agenda_def)
  have "sorted_wrt (<) (ws @ ts)" using s by (auto simp: sorted_wrt_append)
  moreover have "\<forall>n \<in> set (ws @ ts). n < length cs" using b by auto
  moreover have "n \<in> set (ws @ ts) \<or> (\<exists>m\<le>n. \<not> sendable enc m (cs ! m))"
    if "n < length cs" for n
  proof (cases "n = t")
    case True
    with assms(2) show ?thesis by blast
  next
    case False
    with v that show ?thesis by auto
  qed
  ultimately show ?thesis unfolding agenda_def by blast
qed

lemma agenda_head:
  assumes "agenda enc cs ws (t # ts)"
  shows "t < length cs" and "\<forall>u \<in> set ts. t < u"
  using assms by (auto simp: agenda_def sorted_wrt_append)

lemma chunk_call:
  assumes "\<forall>n \<in> set ws. n < length cs"
  shows "map (\<lambda>n. chunk_of enc n ((cs @ [c]) ! n)) ws = map (\<lambda>n. chunk_of enc n (cs ! n)) ws"
  using assms by (simp add: nth_append)

lemma agenda_written: "agenda enc cs ws ts \<Longrightarrow> \<forall>n \<in> set ws. n < length cs"
  by (simp add: agenda_def)

text \<open>The six shapes of the pipeline, to take apart and to put together.\<close>

lemma pipeline_cases [consumes 1, case_names none first_pending first_queued queued
    chained_pending chained_queued]:
  assumes "pipeline enc cs this ks ph"
  obtains
    (none) "ks = []" "ph = 2" "previousEncrypt this = None" "microtasks this = []"
      "encrypting this = []"
  | (first_pending) p n ks' where "ks = SendAwait n # ks'" "ph = 1" "microtasks this = []"
      "encrypting this = [(p, n, fst (cs ! n))]"
      "waiting (promises this) (previousEncrypt this) p [SendAwait n] ks'"
  | (first_queued) n q ks' where "ks = SendAwait n # ks'" "ph = 0"
      "microtasks this = (SendAwait n, answer enc cs n) # q" "encrypting this = []"
      "queued (promises this) (previousEncrypt this) q (answer enc cs n) ks'"
  | (queued) out where "ph = 2" "encrypting this = []"
      "queued (promises this) (previousEncrypt this) (microtasks this) out ks"
      "out = Rejected \<longrightarrow> blamed enc cs ks"
  | (chained_pending) p n d ks' where "ks = ChainedAwait n d # ks'" "ph = 1"
      "microtasks this = []" "encrypting this = [(p, n, fst (cs ! n))]"
      "p < length (promises this)" "promises this ! p = Pending [ChainedAwait n d]"
      "waiting (promises this) (previousEncrypt this) d [] ks'"
  | (chained_queued) n d ks' where "ks = ChainedAwait n d # ks'" "ph = 0"
      "microtasks this = [(ChainedAwait n d, answer enc cs n)]" "encrypting this = []"
      "waiting (promises this) (previousEncrypt this) d [] ks'"
  using assms unfolding pipeline_def
  apply (elim disjE exE conjE)
  subgoal by (rule none; assumption)
  subgoal by (rule first_pending; assumption)
  subgoal by (rule first_queued; assumption)
  subgoal by (rule queued; assumption)
  subgoal by (rule chained_pending; assumption)
  subgoal by (rule chained_queued; assumption)
  done

lemma pipeline_none:
  "previousEncrypt this = None \<Longrightarrow> microtasks this = [] \<Longrightarrow> encrypting this = [] \<Longrightarrow>
   pipeline enc cs this [] 2"
  by (simp add: pipeline_def)

lemma pipeline_first_pending:
  "microtasks this = [] \<Longrightarrow> encrypting this = [(p, n, fst (cs ! n))] \<Longrightarrow>
   waiting (promises this) (previousEncrypt this) p [SendAwait n] ks' \<Longrightarrow>
   pipeline enc cs this (SendAwait n # ks') 1"
  by (simp add: pipeline_def)

lemma pipeline_first_queued:
  "microtasks this = (SendAwait n, answer enc cs n) # q \<Longrightarrow> encrypting this = [] \<Longrightarrow>
   queued (promises this) (previousEncrypt this) q (answer enc cs n) ks' \<Longrightarrow>
   pipeline enc cs this (SendAwait n # ks') 0"
  unfolding pipeline_def by (rule disjI2, rule disjI2, rule disjI1) blast

lemma pipeline_queued:
  "encrypting this = [] \<Longrightarrow>
   queued (promises this) (previousEncrypt this) (microtasks this) out ks \<Longrightarrow>
   (out = Rejected \<longrightarrow> blamed enc cs ks) \<Longrightarrow>
   pipeline enc cs this ks 2"
  unfolding pipeline_def by (rule disjI2, rule disjI2, rule disjI2, rule disjI1) blast

lemma pipeline_chained_pending:
  "microtasks this = [] \<Longrightarrow> encrypting this = [(p, n, fst (cs ! n))] \<Longrightarrow>
   p < length (promises this) \<Longrightarrow>
   promises this ! p = Pending [ChainedAwait n d] \<Longrightarrow>
   waiting (promises this) (previousEncrypt this) d [] ks' \<Longrightarrow>
   pipeline enc cs this (ChainedAwait n d # ks') 1"
  unfolding pipeline_def
  by (rule disjI2, rule disjI2, rule disjI2, rule disjI2, rule disjI1) blast

lemma pipeline_chained_queued:
  "microtasks this = [(ChainedAwait n d, answer enc cs n)] \<Longrightarrow> encrypting this = [] \<Longrightarrow>
   waiting (promises this) (previousEncrypt this) d [] ks' \<Longrightarrow>
   pipeline enc cs this (ChainedAwait n d # ks') 0"
  unfolding pipeline_def
  by (rule disjI2, rule disjI2, rule disjI2, rule disjI2, rule disjI2) blast

lemma blamedI:
  "m < length cs \<Longrightarrow> \<not> sendable enc m (cs ! m) \<Longrightarrow> \<forall>k \<in> set ks. m < tag k \<Longrightarrow>
   blamed enc cs ks"
  unfolding blamed_def by blast

lemma blamed_tail:
  assumes "blamed enc cs (k # ks)"
  shows "blamed enc cs ks" and "\<exists>m\<le>tag k. \<not> sendable enc m (cs ! m)"
proof -
  from assms obtain m where m: "m < length cs" "\<not> sendable enc m (cs ! m)"
    "\<forall>k' \<in> set (k # ks). m < tag k'"
    unfolding blamed_def by blast
  then show "blamed enc cs ks" by (intro blamedI [of m]) simp_all
  from m have "m \<le> tag k" by simp
  with m(2) show "\<exists>m\<le>tag k. \<not> sendable enc m (cs ! m)" by blast
qed

text \<open>The call at the head of the agenda, when it is not sendable, is to blame for what follows.\<close>

lemma blamed_head:
  assumes "agenda enc cs ws (n # map tag ks)" "\<not> sendable enc n (cs ! n)"
  shows "blamed enc cs ks"
  using agenda_head [OF assms(1)] assms(2) by (intro blamedI [of n]) simp_all

lemma settle_pipeline:
  assumes "waiting (promises this) (previousEncrypt this) d [] ks"
    and "microtasks this = []" "encrypting this = []"
    and "out = Rejected \<longrightarrow> blamed enc cs ks"
  shows "pipeline enc cs (settle d out this) ks 2"
proof -
  from queued_settle [OF assms(1), of out] obtain q c where
    qc: "d < length (promises this)" "promises this ! d = Pending c"
      "map (\<lambda>k. (k, out)) c = q"
      "queued ((promises this)[d := Settled out]) (previousEncrypt this) q out ks"
    by auto
  have s: "settle d out this =
     this\<lparr>promises := (promises this)[d := Settled out], microtasks := q\<rparr>"
    using qc(1,2,3) assms(2) by (simp add: settle_Pending)
  show ?thesis
    unfolding s
    by (rule pipeline_queued [where out = out]) (simp_all add: qc(4) assms(3,4))
qed

lemma invariant_atI:
  "sends this = length cs \<Longrightarrow> pipeline enc cs this ks ph \<Longrightarrow> list_all (agrees cs) ks \<Longrightarrow>
   agenda enc cs ws (map tag ks) \<Longrightarrow>
   socket_writes this = map (\<lambda>n. chunk_of enc n (cs ! n)) ws \<Longrightarrow>
   invariant_at enc cs this ws ks ph"
  by (simp add: invariant_at_def)

text \<open>The end of a chained send: its frame is written, or the write has raised.\<close>

lemma finish_chained_invariant:
  assumes w: "waiting (promises this) (previousEncrypt this) d [] ks"
    and m: "microtasks this = []" "encrypting this = []"
    and s: "sends this = length cs" and g: "list_all (agrees cs) ks"
    and a: "agenda enc cs ws (n # map tag ks)"
    and sw: "socket_writes this = map (\<lambda>n. chunk_of enc n (cs ! n)) ws"
    and c: "\<And>bb. byteBuffer pl e = Inr bb \<Longrightarrow> chunk_of enc n (cs ! n) = buffer bb"
    and r: "\<And>err. byteBuffer pl e = Inl err \<Longrightarrow> \<not> sendable enc n (cs ! n)"
  shows "\<exists>ws'. invariant_at enc cs (finish_chained d (write_frame pl e this)) ws' ks 2"
proof (cases rule: write_frame_cases [of pl e this])
  case (wrote bb)
  let ?t = "this\<lparr>socket_writes := socket_writes this @ [buffer bb]\<rparr>"
  have f: "finish_chained d (write_frame pl e this) = settle d (Fulfilled []) ?t"
    by (simp add: finish_chained_def wrote(2))
  have "invariant_at enc cs (settle d (Fulfilled []) ?t) (ws @ [n]) ks 2"
  proof (rule invariant_atI)
    show "pipeline enc cs (settle d (Fulfilled []) ?t) ks 2"
      by (rule settle_pipeline) (use w m in simp_all)
    show "agenda enc cs (ws @ [n]) (map tag ks)"
      using a by (simp add: agenda_shift)
    show "socket_writes (settle d (Fulfilled []) ?t) = map (\<lambda>n. chunk_of enc n (cs ! n)) (ws @ [n])"
      using sw c [OF wrote(1)] by simp
  qed (use s g in simp_all)
  then show ?thesis unfolding f by blast
next
  case (raised err)
  have f: "finish_chained d (write_frame pl e this) = settle d Rejected this"
    by (simp add: finish_chained_def raised(2))
  have n: "\<not> sendable enc n (cs ! n)" by (rule r [OF raised(1)])
  have "invariant_at enc cs (settle d Rejected this) ws ks 2"
  proof (rule invariant_atI)
    show "pipeline enc cs (settle d Rejected this) ks 2"
      by (rule settle_pipeline) (use w m blamed_head [OF a n] in simp_all)
    show "agenda enc cs ws (map tag ks)"
      by (rule agenda_drop [OF a]) (use n in blast)
  qed (use s g sw in simp_all)
  then show ?thesis unfolding f by blast
qed

text \<open>A chained send that is skipped, or gives up, because of a rejection.\<close>

lemma rejected_invariant:
  assumes w: "waiting (promises this) (previousEncrypt this) d [] ks"
    and m: "microtasks this = []" "encrypting this = []"
    and s: "sends this = length cs" and g: "list_all (agrees cs) ks"
    and a: "agenda enc cs ws (n # map tag ks)"
    and sw: "socket_writes this = map (\<lambda>n. chunk_of enc n (cs ! n)) ws"
    and b: "blamed enc cs ks" "\<exists>m\<le>n. \<not> sendable enc m (cs ! m)"
  shows "invariant_at enc cs (settle d Rejected this) ws ks 2"
proof (rule invariant_atI)
  show "pipeline enc cs (settle d Rejected this) ks 2"
    by (rule settle_pipeline) (use w m b in simp_all)
  show "agenda enc cs ws (map tag ks)"
    by (rule agenda_drop [OF a b(2)])
qed (use s g sw in simp_all)

text \<open>
  Every event keeps the invariant. A microtask turn that runs a continuation, and the
  completion of an encryption in flight, also bring the pipeline nearer to its end: the
  weight \<open>3 * length ks + ph\<close> goes down.
\<close>

lemma invariant_microtask:
  assumes "invariant_at enc cs this ws ks ph"
  shows "\<exists>ws' ks' ph'. invariant_at enc cs (step enc Microtask this) ws' ks' ph'
           \<and> (microtasks this \<noteq> [] \<longrightarrow> 3 * length ks' + ph' < 3 * length ks + ph)"
proof -
  from assms have s: "sends this = length cs" and pl: "pipeline enc cs this ks ph"
    and g: "list_all (agrees cs) ks" and a: "agenda enc cs ws (map tag ks)"
    and sw: "socket_writes this = map (\<lambda>n. chunk_of enc n (cs ! n)) ws"
    by (simp_all add: invariant_at_def)
  let ?H = "promises this"
  have idle: ?thesis if "microtasks this = []"
    using that assms by auto
  have fin: ?thesis
    if "invariant_at enc cs (step enc Microtask this) ws' ks' ph'"
      and "3 * length ks' + ph' < 3 * length ks + ph" for ws' ks' ph'
    using that by blast
  from pl show ?thesis
  proof (cases rule: pipeline_cases)
    case none
    then show ?thesis by (intro idle)
  next
    case (first_pending p n ks')
    then show ?thesis by (intro idle)
  next
    case (chained_pending p n d ks')
    then show ?thesis by (intro idle)
  next
    case (first_queued n q ks')
    let ?s = "this\<lparr>microtasks := q\<rparr>"
    have st: "step enc Microtask this = run_job (SendAwait n, answer enc cs n) ?s"
      using first_queued by simp
    from g first_queued(1) have gn: "n < length cs" "snd (cs ! n)" and g': "list_all (agrees cs) ks'"
      by simp_all
    from a first_queued(1) have a': "agenda enc cs ws (n # map tag ks')" by simp
    have wt: "3 * length ks' + 2 < 3 * length ks + ph" using first_queued(1,2) by simp
    show ?thesis
    proof (cases "answer enc cs n")
      case Rejected
      have n: "\<not> sendable enc n (cs ! n)" by (rule cipher_rejected [OF gn(2) Rejected])
      have "invariant_at enc cs ?s ws ks' 2"
      proof (rule invariant_atI)
        show "pipeline enc cs ?s ks' 2"
          by (rule pipeline_queued [where out = "answer enc cs n"])
             (use first_queued blamed_head [OF a' n] in simp_all)
        show "agenda enc cs ws (map tag ks')"
          by (rule agenda_drop [OF a']) (use n in blast)
      qed (use s g' sw in simp_all)
      then have "invariant_at enc cs (step enc Microtask this) ws ks' 2"
        unfolding st Rejected by simp
      then show ?thesis using wt by (rule fin)
    next
      case (Fulfilled c)
      show ?thesis
      proof (cases rule: write_frame_cases [of c True ?s])
        case (wrote bb)
        let ?t = "?s\<lparr>socket_writes := socket_writes ?s @ [buffer bb]\<rparr>"
        have "invariant_at enc cs ?t (ws @ [n]) ks' 2"
        proof (rule invariant_atI)
          show "pipeline enc cs ?t ks' 2"
            by (rule pipeline_queued [where out = "answer enc cs n"])
               (use first_queued Fulfilled in simp_all)
          show "agenda enc cs (ws @ [n]) (map tag ks')"
            using a' by (simp add: agenda_shift)
          show "socket_writes ?t = map (\<lambda>n. chunk_of enc n (cs ! n)) (ws @ [n])"
            using sw chunk_cipher [OF gn(2) Fulfilled wrote(1)] by simp
        qed (use s g' in simp_all)
        then have "invariant_at enc cs (step enc Microtask this) (ws @ [n]) ks' 2"
          unfolding st Fulfilled by (simp add: wrote(2))
        then show ?thesis using wt by (rule fin)
      next
        case (raised err)
        have n: "\<not> sendable enc n (cs ! n)"
          by (rule cipher_raised [OF gn(2) Fulfilled raised(1)])
        have "invariant_at enc cs ?s ws ks' 2"
        proof (rule invariant_atI)
          show "pipeline enc cs ?s ks' 2"
            by (rule pipeline_queued [where out = "answer enc cs n"])
               (use first_queued Fulfilled in simp_all)
          show "agenda enc cs ws (map tag ks')"
            by (rule agenda_drop [OF a']) (use n in blast)
        qed (use s g' sw in simp_all)
        then have "invariant_at enc cs (step enc Microtask this) ws ks' 2"
          unfolding st Fulfilled by (simp add: raised(2))
        then show ?thesis using wt by (rule fin)
      qed
    qed
  next
    case (queued out)
    show ?thesis
    proof (cases ks)
      case Nil
      with queued have "microtasks this = []" by (simp add: queued_def)
      then show ?thesis by (intro idle)
    next
      case (Cons k ks')
      with queued obtain n data e d where k: "k = ChainedSend n data e d"
        and m: "microtasks this = [(k, out)]"
        and w: "waiting ?H (previousEncrypt this) d [] ks'"
        by (auto simp: queued_def)
      let ?s = "this\<lparr>microtasks := []\<rparr>"
      have st: "step enc Microtask this = run_job (k, out) ?s" using m by simp
      have ws: "waiting (promises ?s) (previousEncrypt ?s) d [] ks'" using w by simp
      from g Cons k have gn: "n < length cs" "cs ! n = (data, e)"
        and g': "list_all (agrees cs) ks'" by simp_all
      from a Cons k have a': "agenda enc cs ws (n # map tag ks')" by simp
      have wt: "3 * length ks' + 2 < 3 * length ks + ph" using Cons queued(1) by simp
      show ?thesis
      proof (cases out)
        case Rejected
        with queued(4) Cons k have b: "blamed enc cs (ChainedSend n data e d # ks')" by simp
        have "invariant_at enc cs (settle d Rejected ?s) ws ks' 2"
          by (rule rejected_invariant [OF ws _ _ _ g' a'])
             (use queued(2) s sw blamed_tail [OF b] in simp_all)
        then have "invariant_at enc cs (step enc Microtask this) ws ks' 2"
          unfolding st k Rejected by simp
        then show ?thesis using wt by (rule fin)
      next
        case (Fulfilled v)
        show ?thesis
        proof (cases e)
          case False
          have "\<exists>ws'. invariant_at enc cs (finish_chained d (write_frame data False ?s)) ws' ks' 2"
            by (rule finish_chained_invariant [OF ws _ _ _ g' a'])
               (use queued(2) s sw gn False in \<open>simp_all add: chunk_plain plain_raised\<close>)
          then obtain ws' where "invariant_at enc cs (step enc Microtask this) ws' ks' 2"
            unfolding st k Fulfilled using False by auto
          then show ?thesis using wt by (rule fin)
        next
          case True
          let ?t = "?s\<lparr>promises := ?H @ [Pending [ChainedAwait n d]],
                       encrypting := encrypting this @ [(length ?H, n, data)]\<rparr>"
          have r: "run_job (k, out) ?s = ?t"
            unfolding k Fulfilled using True
            by (simp add: encryptData_def new_promise_def on_settled_def)
          have "invariant_at enc cs ?t ws (ChainedAwait n d # ks') 1"
          proof (rule invariant_atI)
            show "pipeline enc cs ?t (ChainedAwait n d # ks') 1"
              by (rule pipeline_chained_pending [where p = "length ?H"])
                 (use queued(2) w gn in \<open>simp_all add: waiting_alloc\<close>)
            show "list_all (agrees cs) (ChainedAwait n d # ks')"
              using g' gn True by simp
            show "agenda enc cs ws (map tag (ChainedAwait n d # ks'))"
              using a' by simp
          qed (use s sw in simp_all)
          then have "invariant_at enc cs (step enc Microtask this) ws (ChainedAwait n d # ks') 1"
            unfolding st r .
          moreover have "3 * length (ChainedAwait n d # ks') + 1 < 3 * length ks + ph"
            using Cons queued(1) by simp
          ultimately show ?thesis by (rule fin)
        qed
      qed
    qed
  next
    case (chained_queued n d ks')
    let ?s = "this\<lparr>microtasks := []\<rparr>"
    have st: "step enc Microtask this = run_job (ChainedAwait n d, answer enc cs n) ?s"
      using chained_queued by simp
    have ws: "waiting (promises ?s) (previousEncrypt ?s) d [] ks'"
      using chained_queued by simp
    from g chained_queued(1) have gn: "n < length cs" "snd (cs ! n)"
      and g': "list_all (agrees cs) ks'" by simp_all
    from a chained_queued(1) have a': "agenda enc cs ws (n # map tag ks')" by simp
    have wt: "3 * length ks' + 2 < 3 * length ks + ph" using chained_queued(1,2) by simp
    have m: "microtasks this \<noteq> []" using chained_queued(3) by simp
    show ?thesis
    proof (cases "answer enc cs n")
      case Rejected
      have n: "\<not> sendable enc n (cs ! n)" by (rule cipher_rejected [OF gn(2) Rejected])
      have "invariant_at enc cs (settle d Rejected ?s) ws ks' 2"
        by (rule rejected_invariant [OF ws _ _ _ g' a'])
           (use chained_queued(4) s sw blamed_head [OF a' n] n in auto)
      then have "invariant_at enc cs (step enc Microtask this) ws ks' 2"
        unfolding st Rejected by simp
      then show ?thesis using wt by (rule fin)
    next
      case (Fulfilled c)
      have "\<exists>ws'. invariant_at enc cs (finish_chained d (write_frame c True ?s)) ws' ks' 2"
        by (rule finish_chained_invariant [OF ws _ _ _ g' a'])
           (use chained_queued(4) s sw gn Fulfilled in \<open>simp_all add: chunk_cipher cipher_raised\<close>)
      then obtain ws' where "invariant_at enc cs (step enc Microtask this) ws' ks' 2"
        unfolding st Fulfilled by auto
      then show ?thesis using wt by (rule fin)
    qed
  qed
qed

lemma invariant_encrypted:
  assumes "invariant_at enc cs this ws ks ph"
  shows "\<exists>ws' ks' ph'. invariant_at enc cs (step enc (Encrypted p) this) ws' ks' ph'
           \<and> (map_of (encrypting this) p \<noteq> None \<longrightarrow> 3 * length ks' + ph' < 3 * length ks + ph)"
proof (cases "map_of (encrypting this) p")
  case None
  with assms show ?thesis by auto
next
  case (Some x)
  from assms have s: "sends this = length cs" and pl: "pipeline enc cs this ks ph"
    and g: "list_all (agrees cs) ks" and a: "agenda enc cs ws (map tag ks)"
    and sw: "socket_writes this = map (\<lambda>n. chunk_of enc n (cs ! n)) ws"
    by (simp_all add: invariant_at_def)
  let ?H = "promises this"
  have fin: ?thesis
    if "invariant_at enc cs (step enc (Encrypted p) this) ws' ks' ph'"
      and "3 * length ks' + ph' < 3 * length ks + ph" for ws' ks' ph'
    using that by blast
  from pl show ?thesis
  proof (cases rule: pipeline_cases)
    case (first_pending p' n ks')
    with Some have pp: "p' = p" and x: "x = (n, fst (cs ! n))"
      by (simp_all split: if_splits)
    let ?out = "answer enc cs n"
    let ?s = "this\<lparr>encrypting := []\<rparr>"
    have st: "step enc (Encrypted p) this = settle p ?out ?s"
      using first_pending(4) pp by (simp add: answer_def)
    from queued_settle [OF first_pending(5), of ?out] pp obtain q c where
      qc: "p < length ?H" "?H ! p = Pending c"
        "map (\<lambda>k. (k, ?out)) c = (SendAwait n, ?out) # q"
        "queued (?H[p := Settled ?out]) (previousEncrypt this) q ?out ks'"
      by auto
    let ?t = "?s\<lparr>promises := ?H[p := Settled ?out], microtasks := (SendAwait n, ?out) # q\<rparr>"
    have t: "settle p ?out ?s = ?t"
      using qc(1-3) first_pending(3) by (simp add: settle_Pending)
    have "invariant_at enc cs ?t ws ks 0"
    proof (rule invariant_atI)
      show "pipeline enc cs ?t ks 0"
        unfolding first_pending(1)
        by (rule pipeline_first_queued [where q = q]) (use qc(4) in simp_all)
    qed (use s g a sw in simp_all)
    then have "invariant_at enc cs (step enc (Encrypted p) this) ws ks 0"
      unfolding st t .
    moreover have "3 * length ks + 0 < 3 * length ks + ph" using first_pending(2) by simp
    ultimately show ?thesis by (rule fin)
  next
    case (chained_pending p' n d ks')
    with Some have pp: "p' = p" and x: "x = (n, fst (cs ! n))"
      by (simp_all split: if_splits)
    let ?out = "answer enc cs n"
    let ?s = "this\<lparr>encrypting := []\<rparr>"
    have st: "step enc (Encrypted p) this = settle p ?out ?s"
      using chained_pending(4) pp by (simp add: answer_def)
    let ?t = "?s\<lparr>promises := ?H[p := Settled ?out], microtasks := [(ChainedAwait n d, ?out)]\<rparr>"
    have t: "settle p ?out ?s = ?t"
      using chained_pending pp by (simp add: settle_Pending)
    have w: "waiting (?H[p := Settled ?out]) (previousEncrypt this) d [] ks'"
      using chained_pending(6,7) pp by (auto intro: waiting_aside)
    have "invariant_at enc cs ?t ws ks 0"
    proof (rule invariant_atI)
      show "pipeline enc cs ?t ks 0"
        unfolding chained_pending(1)
        by (rule pipeline_chained_queued) (use w in simp_all)
    qed (use s g a sw in simp_all)
    then have "invariant_at enc cs (step enc (Encrypted p) this) ws ks 0"
      unfolding st t .
    moreover have "3 * length ks + 0 < 3 * length ks + ph" using chained_pending(2) by simp
    ultimately show ?thesis by (rule fin)
  qed (use Some in simp_all)
qed

lemma invariant_send:
  assumes "invariant_at enc cs this ws ks ph"
  shows "\<exists>ws' ks' ph'. invariant_at enc (cs @ [(data, e)]) (send data e this) ws' ks' ph'"
proof -
  from assms have s: "sends this = length cs" and pl: "pipeline enc cs this ks ph"
    and g: "list_all (agrees cs) ks" and a: "agenda enc cs ws (map tag ks)"
    and sw: "socket_writes this = map (\<lambda>n. chunk_of enc n (cs ! n)) ws"
    by (simp_all add: invariant_at_def)
  let ?H = "promises this"
  let ?cs = "cs @ [(data, e)]"
  let ?n = "length cs"
  let ?k = "ChainedSend ?n data e (length ?H)"
  have g': "list_all (agrees ?cs) ks"
    using g by (simp add: list_all_iff agrees_call)
  have gk: "agrees ?cs ?k" by simp
  have gg: "list_all (agrees ?cs) (ks @ [?k])" using g' gk by simp
  have a': "agenda enc ?cs ws (map tag (ks @ [?k]))"
    using agenda_call [OF a, of "(data, e)"] by simp
  have sw': "socket_writes this = map (\<lambda>n. chunk_of enc n (?cs ! n)) ws"
    using sw chunk_call [OF agenda_written [OF a], of enc "(data, e)"] by simp
  have s': "Suc (sends this) = length ?cs" using s by simp
  have fin: ?thesis if "invariant_at enc ?cs (send data e this) ws' ks' ph'" for ws' ks' ph'
    using that by blast
  have chained: ?thesis
    if "send data e this = t" "sends t = Suc (sends this)" "socket_writes t = socket_writes this"
      "pipeline enc ?cs t (ks @ [?k]) ph'" for t ph'
  proof -
    have "invariant_at enc ?cs t ws (ks @ [?k]) ph'"
      by (rule invariant_atI) (use that s' gg a' sw' in simp_all)
    then show ?thesis unfolding that(1) [symmetric] by (rule fin)
  qed
  from pl show ?thesis
  proof (cases rule: pipeline_cases)
    case none
    show ?thesis
    proof (cases e)
      case True
      let ?t = "this\<lparr>sends := sends this + 1,
                promises := ?H @ [Pending [SendAwait (sends this)]],
                encrypting := encrypting this @ [(length ?H, sends this, data)],
                previousEncrypt := Some (length ?H)\<rparr>"
      have st: "send data e this = ?t" using send_first(1) [OF none(3), of data] True by simp
      have "invariant_at enc ?cs ?t ws [SendAwait ?n] 1"
      proof (rule invariant_atI)
        show "pipeline enc ?cs ?t [SendAwait ?n] 1"
          by (rule pipeline_first_pending [where p = "length ?H"]) (simp_all add: none s)
        show "agenda enc ?cs ws (map tag [SendAwait ?n])"
          using a' none(1) by simp
      qed (use s sw' True in simp_all)
      then show ?thesis unfolding st [symmetric] by (rule fin)
    next
      case False
      let ?s = "this\<lparr>sends := sends this + 1\<rparr>"
      have st: "send data e this = fst (write_frame data False ?s)"
        using send_first(2) [OF none(3), of data] False by simp
      have a0: "agenda enc ?cs ws [?n]" using a' none(1) by simp
      show ?thesis
      proof (cases rule: write_frame_cases [of data False ?s])
        case (wrote bb)
        let ?t = "?s\<lparr>socket_writes := socket_writes ?s @ [buffer bb]\<rparr>"
        have "invariant_at enc ?cs ?t (ws @ [?n]) [] 2"
        proof (rule invariant_atI)
          show "pipeline enc ?cs ?t [] 2" by (rule pipeline_none) (simp_all add: none)
          show "agenda enc ?cs (ws @ [?n]) (map tag [])"
            using a0 by (simp add: agenda_shift)
          show "socket_writes ?t = map (\<lambda>n. chunk_of enc n (?cs ! n)) (ws @ [?n])"
            using sw' chunk_plain [OF wrote(1), of enc ?n] False by simp
        qed (use s in simp_all)
        then have "invariant_at enc ?cs (send data e this) (ws @ [?n]) [] 2"
          unfolding st wrote(2) by simp
        then show ?thesis by (rule fin)
      next
        case (raised err)
        have n: "\<not> sendable enc ?n (?cs ! ?n)"
          using plain_raised [OF raised(1), of enc ?n] False by simp
        then have "\<exists>m\<le>?n. \<not> sendable enc m (?cs ! m)" by blast
        note d = agenda_drop [OF a0 this]
        have "invariant_at enc ?cs ?s ws [] 2"
        proof (rule invariant_atI)
          show "pipeline enc ?cs ?s [] 2" by (rule pipeline_none) (simp_all add: none)
          show "agenda enc ?cs ws (map tag [])"
            using d by simp
        qed (use s sw' in simp_all)
        then have "invariant_at enc ?cs (send data e this) ws [] 2"
          unfolding st raised(2) by simp
        then show ?thesis by (rule fin)
      qed
    qed
  next
    case (first_pending p n ks')
    from g first_pending(1) have gn: "n < length cs" by simp
    from waiting_last [OF first_pending(5)] obtain l where
      l: "previousEncrypt this = Some l" "l < length ?H" by blast
    from waiting_send [OF first_pending(5) [unfolded l(1)], of ?k] obtain c where
      c: "?H ! l = Pending c"
         "waiting ((?H @ [Pending []])[l := Pending (c @ [?k])]) (Some (length ?H)) p
            [SendAwait n] (ks' @ [?k])"
      by blast
    let ?t = "this\<lparr>sends := sends this + 1,
               promises := (?H @ [Pending []])[l := Pending (c @ [?k])],
               previousEncrypt := Some (length ?H)\<rparr>"
    have st: "send data e this = ?t" using send_chained [OF l, of data e] c(1) s by simp
    have "pipeline enc ?cs ?t (SendAwait n # ks' @ [?k]) 1"
      by (rule pipeline_first_pending [where p = p])
         (use first_pending c(2) gn in \<open>simp_all add: nth_append\<close>)
    then show ?thesis
      by (intro chained [OF st]) (simp_all add: first_pending(1))
  next
    case (first_queued n q ks')
    from g first_queued(1) have gn: "n < length cs" by simp
    let ?out = "answer enc cs n"
    have o: "answer enc ?cs n = ?out" using gn by (rule answer_call)
    from queued_previous [OF first_queued(5)] obtain l where
      l: "previousEncrypt this = Some l" "l < length ?H" by blast
    from queued_send [OF first_queued(5) [unfolded l(1)], of ?k]
    consider c where "?H ! l = Pending c"
        "queued ((?H @ [Pending []])[l := Pending (c @ [?k])]) (Some (length ?H)) q ?out (ks' @ [?k])"
      | "?H ! l = Settled ?out" "ks' = []" "q = []"
        "queued (?H @ [Pending []]) (Some (length ?H)) [(?k, ?out)] ?out [?k]"
      by blast
    then show ?thesis
    proof cases
      case 1
      let ?t = "this\<lparr>sends := sends this + 1,
               promises := (?H @ [Pending []])[l := Pending (c @ [?k])],
               previousEncrypt := Some (length ?H)\<rparr>"
      have st: "send data e this = ?t" using send_chained [OF l, of data e] 1(1) s by simp
      have "pipeline enc ?cs ?t (SendAwait n # ks' @ [?k]) 0"
        by (rule pipeline_first_queued [where q = q])
           (use first_queued 1(2) o in simp_all)
      then show ?thesis
        by (intro chained [OF st]) (simp_all add: first_queued(1))
    next
      case 2
      let ?t = "this\<lparr>sends := sends this + 1,
               promises := ?H @ [Pending []],
               microtasks := microtasks this @ [(?k, ?out)],
               previousEncrypt := Some (length ?H)\<rparr>"
      have st: "send data e this = ?t" using send_chained [OF l, of data e] 2(1) s by simp
      have "pipeline enc ?cs ?t (SendAwait n # [?k]) 0"
        by (rule pipeline_first_queued [where q = "[(?k, ?out)]"])
           (use first_queued 2 o in simp_all)
      then show ?thesis
        by (intro chained [OF st]) (simp_all add: first_queued(1) 2(2))
    qed
  next
    case (queued out)
    have b: "out = Rejected \<longrightarrow> blamed enc ?cs (ks @ [?k])"
      using queued(4) blamed_call [of enc cs ks ?k "(data, e)"] by simp
    from queued_previous [OF queued(3)] obtain l where
      l: "previousEncrypt this = Some l" "l < length ?H" by blast
    from queued_send [OF queued(3) [unfolded l(1)], of ?k]
    consider c where "?H ! l = Pending c"
        "queued ((?H @ [Pending []])[l := Pending (c @ [?k])]) (Some (length ?H))
           (microtasks this) out (ks @ [?k])"
      | "?H ! l = Settled out" "ks = []" "microtasks this = []"
        "queued (?H @ [Pending []]) (Some (length ?H)) [(?k, out)] out [?k]"
      by blast
    then show ?thesis
    proof cases
      case 1
      let ?t = "this\<lparr>sends := sends this + 1,
               promises := (?H @ [Pending []])[l := Pending (c @ [?k])],
               previousEncrypt := Some (length ?H)\<rparr>"
      have st: "send data e this = ?t" using send_chained [OF l, of data e] 1(1) s by simp
      have "pipeline enc ?cs ?t (ks @ [?k]) 2"
        by (rule pipeline_queued [where out = out]) (use queued 1(2) b in simp_all)
      then show ?thesis
        by (intro chained [OF st]) simp_all
    next
      case 2
      let ?t = "this\<lparr>sends := sends this + 1,
               promises := ?H @ [Pending []],
               microtasks := microtasks this @ [(?k, out)],
               previousEncrypt := Some (length ?H)\<rparr>"
      have st: "send data e this = ?t" using send_chained [OF l, of data e] 2(1) s by simp
      have "pipeline enc ?cs ?t (ks @ [?k]) 2"
        by (rule pipeline_queued [where out = out]) (use queued 2 b in simp_all)
      then show ?thesis
        by (intro chained [OF st]) simp_all
    qed
  next
    case (chained_pending p n d ks')
    from g chained_pending(1) have gn: "n < length cs" by simp
    from waiting_last_empty [OF chained_pending(7)] obtain l where
      l: "previousEncrypt this = Some l" "l < length ?H" and le: "?H ! l = Pending []"
      by blast
    from waiting_send [OF chained_pending(7) [unfolded l(1)], of ?k] le have
      c: "waiting ((?H @ [Pending []])[l := Pending [?k]]) (Some (length ?H)) d [] (ks' @ [?k])"
      by auto
    have pl: "p \<noteq> l" using le chained_pending(6) by auto
    let ?t = "this\<lparr>sends := sends this + 1,
               promises := (?H @ [Pending []])[l := Pending [?k]],
               previousEncrypt := Some (length ?H)\<rparr>"
    have st: "send data e this = ?t" using send_chained [OF l, of data e] le s by simp
    have "pipeline enc ?cs ?t (ChainedAwait n d # ks' @ [?k]) 1"
      by (rule pipeline_chained_pending [where p = p])
         (use chained_pending pl c gn in \<open>simp_all add: nth_append\<close>)
    then show ?thesis
      by (intro chained [OF st]) (simp_all add: chained_pending(1))
  next
    case (chained_queued n d ks')
    from g chained_queued(1) have gn: "n < length cs" by simp
    have o: "answer enc ?cs n = answer enc cs n" using gn by (rule answer_call)
    from waiting_last_empty [OF chained_queued(5)] obtain l where
      l: "previousEncrypt this = Some l" "l < length ?H" and le: "?H ! l = Pending []"
      by blast
    from waiting_send [OF chained_queued(5) [unfolded l(1)], of ?k] le have
      c: "waiting ((?H @ [Pending []])[l := Pending [?k]]) (Some (length ?H)) d [] (ks' @ [?k])"
      by auto
    let ?t = "this\<lparr>sends := sends this + 1,
               promises := (?H @ [Pending []])[l := Pending [?k]],
               previousEncrypt := Some (length ?H)\<rparr>"
    have st: "send data e this = ?t" using send_chained [OF l, of data e] le s by simp
    have "pipeline enc ?cs ?t (ChainedAwait n d # ks' @ [?k]) 0"
      by (rule pipeline_chained_queued)
         (use chained_queued c o in simp_all)
    then show ?thesis
      by (intro chained [OF st]) (simp_all add: chained_queued(1))
  qed
qed

text \<open>So the invariant holds after every course of events from a new transport.\<close>

lemma send_calls_append: "send_calls (xs @ ys) = send_calls xs @ send_calls ys"
  by (induction xs rule: send_calls.induct) simp_all

lemma invariant_new: "invariant_at enc [] (new_Outbound ov) [] [] 2"
  by (intro invariant_atI pipeline_none) (simp_all add: new_Outbound_def agenda_def)

lemma invariant_step:
  assumes "invariant enc cs this"
  shows "invariant enc (cs @ send_calls [ev]) (step enc ev this)"
proof -
  from assms obtain ws ks ph where i: "invariant_at enc cs this ws ks ph"
    unfolding invariant_def by blast
  show ?thesis
  proof (cases ev)
    case (Send data e)
    with invariant_send [OF i, of data e] show ?thesis unfolding invariant_def by simp
  next
    case (Encrypted p)
    with invariant_encrypted [OF i, of p] show ?thesis unfolding invariant_def by auto
  next
    case Microtask
    with invariant_microtask [OF i] show ?thesis unfolding invariant_def by auto
  qed
qed

lemma run_events_Cons: "run_events enc (ev # evs) this = run_events enc evs (step enc ev this)"
  by (simp add: run_events_def)

lemma run_events_append:
  "run_events enc (xs @ ys) this = run_events enc ys (run_events enc xs this)"
  by (simp add: run_events_def)

lemma invariant_run:
  "invariant enc cs this \<Longrightarrow> invariant enc (cs @ send_calls evs) (run_events enc evs this)"
proof (induction evs arbitrary: cs this)
  case Nil
  then show ?case by (simp add: run_events_def)
next
  case (Cons ev evs)
  from Cons.IH [OF invariant_step [OF Cons.prems, of ev]]
  have "invariant enc ((cs @ send_calls [ev]) @ send_calls evs)
          (run_events enc evs (step enc ev this))" .
  moreover have "(cs @ send_calls [ev]) @ send_calls evs = cs @ send_calls (ev # evs)"
    using send_calls_append [of "[ev]" evs] by simp
  ultimately show ?case by (simp only: run_events_Cons)
qed

text \<open>With nothing queued and no encryption in flight, no continuation is left.\<close>

lemma pipeline_idle:
  assumes "pipeline enc cs this ks ph" "microtasks this = []" "encrypting this = []"
  shows "ks = []"
  using assms(1)
proof (cases rule: pipeline_cases)
  case (queued out)
  with assms(2) show ?thesis by (cases ks) (simp_all add: queued_def)
qed (use assms in simp_all)

lemma pipeline_done: "pipeline enc cs this [] ph \<Longrightarrow> ph = 2"
  by (erule pipeline_cases) simp_all

text \<open>
  As long as a continuation is left, a microtask is queued or an encryption is in
  flight, and each of these events brings the pipeline nearer to its end: it drains.
\<close>

lemma pipeline_enabled:
  assumes "pipeline enc cs this ks ph" "ks \<noteq> []"
  shows "microtasks this \<noteq> [] \<or> (\<exists>p. map_of (encrypting this) p \<noteq> None)"
  using assms(1)
proof (cases rule: pipeline_cases)
  case (queued out)
  with assms(2) show ?thesis by (cases ks) (simp_all add: queued_def)
qed (use assms(2) in simp_all)

lemma drains:
  "invariant_at enc cs this ws ks ph \<Longrightarrow>
   \<exists>evs' ws'. send_calls evs' = [] \<and> invariant_at enc cs (run_events enc evs' this) ws' [] 2"
proof (induction "3 * length ks + ph" arbitrary: this ws ks ph rule: less_induct)
  case less
  from less.prems have pl: "pipeline enc cs this ks ph" by (simp add: invariant_at_def)
  show ?case
  proof (cases "ks = []")
    case True
    with pl have "ph = 2" by (simp add: pipeline_done)
    with less.prems True have "send_calls [] = []
        \<and> invariant_at enc cs (run_events enc [] this) ws [] 2"
      by (simp add: run_events_def)
    then show ?thesis by blast
  next
    case False
    from pipeline_enabled [OF pl False]
    obtain ev ws' ks' ph' where ev: "send_calls [ev] = []"
      and i: "invariant_at enc cs (step enc ev this) ws' ks' ph'"
      and l: "3 * length ks' + ph' < 3 * length ks + ph"
    proof
      assume m: "microtasks this \<noteq> []"
      from invariant_microtask [OF less.prems] m obtain ws' ks' ph' where
        "invariant_at enc cs (step enc Microtask this) ws' ks' ph'"
        "3 * length ks' + ph' < 3 * length ks + ph" by blast
      then show ?thesis by (intro that [of Microtask]) simp_all
    next
      assume "\<exists>p. map_of (encrypting this) p \<noteq> None"
      then obtain p where p: "map_of (encrypting this) p \<noteq> None" by blast
      from invariant_encrypted [OF less.prems, of p] p obtain ws' ks' ph' where
        "invariant_at enc cs (step enc (Encrypted p) this) ws' ks' ph'"
        "3 * length ks' + ph' < 3 * length ks + ph" by blast
      then show ?thesis by (intro that [of "Encrypted p"]) simp_all
    qed
    from less.hyps [OF l i] obtain evs' ws'' where
      e: "send_calls evs' = []"
        "invariant_at enc cs (run_events enc evs' (step enc ev this)) ws'' [] 2"
      by blast
    have "send_calls (ev # evs') = []"
      using send_calls_append [of "[ev]" evs'] ev e(1) by simp
    moreover have "invariant_at enc cs (run_events enc (ev # evs') this) ws'' [] 2"
      using e(2) by (simp only: run_events_Cons)
    ultimately show ?thesis by blast
  qed
qed

text \<open>When every call is sendable, no call is missing from the agenda.\<close>

lemma agenda_complete:
  assumes "agenda enc cs ws ts" and ok: "\<forall>n<length cs. sendable enc n (cs ! n)"
  shows "ws @ ts = [0..<length cs]"
proof -
  from assms(1) have s: "sorted_wrt (<) (ws @ ts)"
    and b: "\<forall>n \<in> set (ws @ ts). n < length cs"
    and v: "\<forall>n<length cs. n \<in> set (ws @ ts) \<or> (\<exists>m\<le>n. \<not> sendable enc m (cs ! m))"
    by (simp_all add: agenda_def)
  have "n \<in> set (ws @ ts)" if "n < length cs" for n
  proof -
    from v that have "n \<in> set (ws @ ts) \<or> (\<exists>m\<le>n. \<not> sendable enc m (cs ! m))" by blast
    moreover have "\<not> (\<exists>m\<le>n. \<not> sendable enc m (cs ! m))" using ok that by auto
    ultimately show ?thesis by blast
  qed
  note m = this
  have "set (ws @ ts) = set [0..<length cs]"
  proof (rule set_eqI)
    fix n
    show "n \<in> set (ws @ ts) \<longleftrightarrow> n \<in> set [0..<length cs]"
      using b m [of n] by auto
  qed
  moreover from s have "sorted (ws @ ts)" "distinct (ws @ ts)"
    by (simp_all add: strict_sorted_iff)
  ultimately show ?thesis
    by (intro sorted_distinct_set_unique) simp_all
qed

lemma written_prefix:
  assumes "ws @ ts = [0..<m]"
  shows "ws = [0..<length ws]" and "length ws \<le> m"
proof -
  from assms have l: "length ws + length ts = m"
    by (metis length_append length_upt minus_nat.diff_0)
  then show "length ws \<le> m" by simp
  from assms have "take (length ws) (ws @ ts) = take (length ws) [0..<m]" by simp
  then show "ws = [0..<length ws]" using l by (simp add: take_upt)
qed

lemma expected_take:
  assumes "\<forall>n<length cs. sendable enc n (cs ! n)" "k \<le> length cs"
  shows "map (\<lambda>n. chunk_of enc n (cs ! n)) [0..<k] = take k (expected enc cs)"
proof -
  have "map (\<lambda>n. chunk_of enc n (cs ! n)) [0..<k] = map (\<lambda>n. wire enc n (cs ! n)) [0..<k]"
    using assms by (simp add: chunk_wire)
  also have "\<dots> = take k (expected enc cs)"
    using assms(2) by (simp add: expected_def take_map take_upt)
  finally show ?thesis .
qed

text \<open>What the invariant says about the chunks on the socket.\<close>

lemma invariant_writes:
  assumes "invariant_at enc cs this ws ks ph"
  shows "sorted_wrt (<) ws \<and> (\<forall>n \<in> set ws. n < length cs)
         \<and> socket_writes this = map (\<lambda>n. chunk_of enc n (cs ! n)) ws"
  using assms by (auto simp: invariant_at_def agenda_def sorted_wrt_append)

lemma invariant_sendable:
  assumes i: "invariant_at enc cs this ws ks ph"
    and ok: "\<forall>n<length cs. sendable enc n (cs ! n)"
  shows "length ws \<le> length cs"
    and "socket_writes this = take (length ws) (expected enc cs)"
    and "ks = [] \<Longrightarrow> socket_writes this = expected enc cs"
proof -
  from i have a: "agenda enc cs ws (map tag ks)"
    and sw: "socket_writes this = map (\<lambda>n. chunk_of enc n (cs ! n)) ws"
    by (simp_all add: invariant_at_def)
  note c = agenda_complete [OF a ok]
  note p = written_prefix [OF c]
  show l: "length ws \<le> length cs" by (rule p(2))
  have "socket_writes this = map (\<lambda>n. chunk_of enc n (cs ! n)) [0..<length ws]"
    using sw p(1) by simp
  then show t: "socket_writes this = take (length ws) (expected enc cs)"
    by (simp only: expected_take [OF ok l])
  show "socket_writes this = expected enc cs" if "ks = []"
  proof -
    from c that have "length ws = length cs"
      by (metis append_Nil2 length_upt list.simps(8) minus_nat.diff_0)
    with t show ?thesis by (simp add: expected_def)
  qed
qed

text \<open>
  C6. Take any course of \<open>send\<close> calls, with any encryption flags, of completions of
  the encryptions, each whenever it comes, and of microtask turns, from a new transport.
  \<^item> Whatever the encryptions answer, the chunks on the socket are the chunks that
    \<open>writeSync\<close> builds for the calls \<open>ws\<close>, which are in strictly increasing order: the
    chunk of a later call is never written before the chunk of an earlier one.
  \<^item> When every call is sendable, the chunks on the socket are the frames of the first
    \<open>k\<close> calls, one for each call and in the order of the calls: the frame of a call A is
    on the socket before the frame of any later call B. With nothing queued and no
    encryption in flight they are the frames of all the calls. And the completions and
    microtask turns that are still to come, with no further \<open>send\<close>, do bring the frames
    of all the calls to the socket.
\<close>

theorem send_order:
  "(\<exists>ws. sorted_wrt (<) ws \<and> (\<forall>n \<in> set ws. n < length (send_calls evs))
       \<and> socket_writes (run_events enc evs (new_Outbound ov)) =
           map (\<lambda>n. chunk_of enc n (send_calls evs ! n)) ws)
   \<and> ((\<forall>n<length (send_calls evs). sendable enc n (send_calls evs ! n)) \<longrightarrow>
        (\<exists>k\<le>length (send_calls evs).
           socket_writes (run_events enc evs (new_Outbound ov)) =
             take k (expected enc (send_calls evs)))
      \<and> (microtasks (run_events enc evs (new_Outbound ov)) = []
           \<and> encrypting (run_events enc evs (new_Outbound ov)) = []
         \<longrightarrow> socket_writes (run_events enc evs (new_Outbound ov)) =
               expected enc (send_calls evs))
      \<and> (\<exists>evs'. send_calls evs' = []
           \<and> socket_writes (run_events enc (evs @ evs') (new_Outbound ov)) =
               expected enc (send_calls evs)))"
proof -
  let ?cs = "send_calls evs"
  let ?t = "run_events enc evs (new_Outbound ov)"
  have "invariant enc [] (new_Outbound ov)"
    unfolding invariant_def using invariant_new by blast
  from invariant_run [OF this, of evs] obtain ws ks ph where
    i: "invariant_at enc ?cs ?t ws ks ph"
    unfolding invariant_def by auto
  have 1: "\<exists>ws. sorted_wrt (<) ws \<and> (\<forall>n \<in> set ws. n < length ?cs)
       \<and> socket_writes ?t = map (\<lambda>n. chunk_of enc n (?cs ! n)) ws"
    using invariant_writes [OF i] by blast
  have 2: "(\<exists>k\<le>length ?cs. socket_writes ?t = take k (expected enc ?cs))
      \<and> (microtasks ?t = [] \<and> encrypting ?t = []
         \<longrightarrow> socket_writes ?t = expected enc ?cs)
      \<and> (\<exists>evs'. send_calls evs' = []
           \<and> socket_writes (run_events enc (evs @ evs') (new_Outbound ov)) = expected enc ?cs)"
    if ok: "\<forall>n<length ?cs. sendable enc n (?cs ! n)"
  proof (intro conjI impI)
    show "\<exists>k\<le>length ?cs. socket_writes ?t = take k (expected enc ?cs)"
      using invariant_sendable(1,2) [OF i ok] by blast
  next
    assume "microtasks ?t = [] \<and> encrypting ?t = []"
    moreover from i have "pipeline enc ?cs ?t ks ph" by (simp add: invariant_at_def)
    ultimately have "ks = []" by (auto intro: pipeline_idle)
    then show "socket_writes ?t = expected enc ?cs"
      by (rule invariant_sendable(3) [OF i ok])
  next
    from drains [OF i] obtain evs' ws' where
      e: "send_calls evs' = []" "invariant_at enc ?cs (run_events enc evs' ?t) ws' [] 2"
      by blast
    from invariant_sendable(3) [OF e(2) ok]
    have "socket_writes (run_events enc (evs @ evs') (new_Outbound ov)) = expected enc ?cs"
      by (simp add: run_events_append)
    with e(1) show "\<exists>evs'. send_calls evs' = []
           \<and> socket_writes (run_events enc (evs @ evs') (new_Outbound ov)) = expected enc ?cs"
      by blast
  qed
  from 1 2 show ?thesis by blast
qed

theorem send_order_witness:
  "send_calls [Send [1] True, Send [2] False, Send [3, 4] True, Encrypted 0, Microtask,
      Microtask, Microtask, Encrypted 3, Microtask] = [([1], True), ([2], False), ([3, 4], True)]
   \<and> microtasks (run_events (\<lambda>n data. Some (rev data @ [9]))
       [Send [1] True, Send [2] False, Send [3, 4] True, Encrypted 0, Microtask,
        Microtask, Microtask, Encrypted 3, Microtask] (new_Outbound None)) = []
   \<and> encrypting (run_events (\<lambda>n data. Some (rev data @ [9]))
       [Send [1] True, Send [2] False, Send [3, 4] True, Encrypted 0, Microtask,
        Microtask, Microtask, Encrypted 3, Microtask] (new_Outbound None)) = []
   \<and> socket_writes (run_events (\<lambda>n data. Some (rev data @ [9]))
       [Send [1] True, Send [2] False, Send [3, 4] True, Encrypted 0, Microtask,
        Microtask, Microtask, Encrypted 3, Microtask] (new_Outbound None)) =
     [[0, 0, 0, 2, 1, 1, 9], [0, 0, 0, 1, 0, 2], [0, 0, 0, 3, 1, 4, 3, 9]]"
proof -
  let ?enc = "\<lambda>n data. Some (rev data @ [9 :: byte]) :: bytes option"
  let ?evs = "[Send [1] True, Send [2] False, Send [3, 4] True, Encrypted 0, Microtask,
      Microtask, Microtask, Encrypted 3, Microtask]"
  let ?t = "run_events ?enc ?evs (new_Outbound None)"
  have c: "send_calls ?evs = [([1], True), ([2], False), ([3, 4], True)]" by simp
  have ok: "\<forall>n<length (send_calls ?evs). sendable ?enc n (send_calls ?evs ! n)"
    unfolding c by (simp add: sendable_def payload_of_def less_Suc_eq numeral_3_eq_3)
  have q: "microtasks ?t = [] \<and> encrypting ?t = []"
    by (simp add: run_events_def send_def new_promise_def encryptData_def on_settled_def
      settle_def write_frame_def finish_chained_def new_Outbound_def writeSync_Inr Let_def)
  from send_order [of ?evs ?enc None] ok q
  have "socket_writes ?t = expected ?enc (send_calls ?evs)" by blast
  also have "\<dots> = [[0, 0, 0, 2, 1, 1, 9], [0, 0, 0, 1, 0, 2], [0, 0, 0, 3, 1, 4, 3, 9]]"
    unfolding c
    by (simp add: expected_def wire_def payload_of_def frame_of_def int32_bytes_def upt_rec)
  finally show ?thesis using c q by simp
qed

end
